theory Spec2Isabelle
  imports Complex_Main "HOL-Library.Word"
begin

unbundle bit_operations_syntax

section \<open>JavaScript numbers and 32-bit bitwise operators\<close>

text \<open>
  The driver (\<^verbatim>\<open>src/extensions/scratch3_root/index.js\<close>) computes with JavaScript
  numbers. They are modelled as rationals: every value the driver builds from a finite
  block argument with \<open>+\<close>, \<open>*\<close>, \<open>/\<close>, \<open>min\<close> and \<open>max\<close> is one (rounding of
  doubles, \<open>NaN\<close> and the infinities are outside the model; \<open>Cast.toNumber\<close> has
  already turned the block argument into a number).

  The bitwise operators \<open>&\<close> and \<open>>>\<close> first convert their operands with ToInt32
  (truncate towards zero, then wrap modulo \<open>2^32\<close>), work on 32-bit two's complement
  values, and give back the signed reading of the 32-bit result: \<open>>>\<close> is the
  sign-propagating shift.
\<close>

type_synonym number = rat

definition toInt32 :: "number \<Rightarrow> 32 word" where
  "toInt32 x = word_of_int (if x < 0 then - \<lfloor>- x\<rfloor> else \<lfloor>x\<rfloor>)"

definition fromInt32 :: "32 word \<Rightarrow> number" where
  "fromInt32 w = of_int (sint w)"

definition js_and :: "number \<Rightarrow> number \<Rightarrow> number" where
  "js_and a b = fromInt32 (toInt32 a AND toInt32 b)"

definition js_shr :: "number \<Rightarrow> nat \<Rightarrow> number" where
  "js_shr a k = fromInt32 (signed_drop_bit (k mod 32) (toInt32 a))"

section \<open>Packet codec helpers\<close>

text \<open>\<^verbatim>\<open>scaleBetween\<close>, lines 59-61.\<close>

definition scaleBetween :: "number \<Rightarrow> number \<Rightarrow> number \<Rightarrow> number \<Rightarrow> number \<Rightarrow> number" where
  "scaleBetween unscaledNum minIn maxIn minOut maxOut =
     (maxOut - minOut) * (unscaledNum - minIn) / (maxIn - minIn) + minOut"

text \<open>\<^verbatim>\<open>int32toArray\<close>, lines 63-72.\<close>

definition int32toArray :: "number \<Rightarrow> number list" where
  "int32toArray numberIn =
     [ js_shr (js_and numberIn 0xff000000) 24,
       js_shr (js_and numberIn 0x00ff0000) 16,
       js_shr (js_and numberIn 0x0000ff00) 8,
       js_and numberIn 0x000000ff ]"

text \<open>\<^verbatim>\<open>int16toArray\<close>, lines 74-81.\<close>

definition int16toArray :: "number \<Rightarrow> number list" where
  "int16toArray numberIn =
     [ js_shr (js_and numberIn 0x0000ff00) 8,
       js_and numberIn 0x000000ff ]"

text \<open>
  The big-endian reading of a list of numbers as base-256 digits, most significant
  first: the reconstruction that the round-trip property of the codec refers to.
\<close>

definition fromBigEndian :: "number list \<Rightarrow> number" where
  "fromBigEndian bs = foldl (\<lambda>acc b. acc * 256 + b) 0 bs"

definition isByte :: "number \<Rightarrow> bool" where
  "isByte b = (of_int \<lfloor>b\<rfloor> = b \<and> 0 \<le> b \<and> b \<le> 255)"


text \<open>\<^verbatim>\<open>strToArray\<close>, lines 83-86: the UTF-8 bytes of a text. Texts are modelled as
  strings of code points below 256, each of which \<open>TextEncoder\<close> encodes in one or
  two bytes.\<close>

definition utf8 :: "char \<Rightarrow> number list" where
  "utf8 c = (let n = (of_char c :: nat)
             in if n < 128 then [of_nat n]
                else [of_nat (192 + n div 64), of_nat (128 + n mod 64)])"

definition strToArray :: "string \<Rightarrow> number list" where
  "strToArray s = concat (map utf8 s)"

section \<open>Inbound frames\<close>

text \<open>
  An inbound frame is the \<open>Uint8Array\<close> that \<open>Base64Util.base64ToUint8Array\<close> returns.
  Reading an element beyond its length gives \<open>undefined\<close> (\<open>None\<close>), which ToInt32
  turns into 0 under \<open>&\<close> and which is loosely equal to no number.
\<close>

type_synonym frame = "8 word list"

definition elemAt :: "frame \<Rightarrow> nat \<Rightarrow> number option" where
  "elemAt d i = (if i < length d then Some (of_nat (unat (d ! i))) else None)"

definition orZero :: "number option \<Rightarrow> number" where
  "orZero v = (case v of None \<Rightarrow> 0 | Some x \<Rightarrow> x)"

definition truthy :: "number \<Rightarrow> bool" where
  "truthy x = (x \<noteq> 0)"

text \<open>\<open>Uint8Array.prototype.slice(a, b)\<close> for \<open>0 \<le> a \<le> b\<close>, clamped to the length.\<close>

definition slice :: "'a list \<Rightarrow> nat \<Rightarrow> nat \<Rightarrow> 'a list" where
  "slice xs a b = take (b - a) (drop a xs)"

text \<open>
  \<^verbatim>\<open>colorDataToArray\<close>, lines 88-95. \<open>new Array(32)\<close> starts with 32 empty slots
  (\<open>None\<close>); the loop assigns slots \<open>2 * i\<close> and \<open>2 * i + 1\<close> for \<open>i = 0 .. 15\<close>.
\<close>

definition colorDataToArray :: "frame \<Rightarrow> number option list" where
  "colorDataToArray dataIn =
     fold (\<lambda>i arrayOut.
             (arrayOut[i * 2 := Some (js_shr (js_and (orZero (elemAt dataIn i)) 0xf0) 4)])
                      [i * 2 + 1 := Some (js_and (orZero (elemAt dataIn i)) 0x0f)])
          [0..<16] (replicate 32 None)"

section \<open>Rate limiter\<close>

text \<open>
  Modelled from the spec: the class \<open>RateLimiter\<close> of \<^verbatim>\<open>util/rateLimiter.js\<close> is
  not among the sources. The spec describes a count of sends attributed to the current
  one-second window, reset on window rollover; \<open>tryAcquire\<close> (the driver calls it
  \<open>okayToSend\<close>) returns false without side effects when the window's count is already
  at the maximum, otherwise increments the count and returns true. The time of the call
  is passed in, in milliseconds.
\<close>

record RateLimiter =
  maxCount :: nat
  windowStart :: int
  count :: nat

text \<open>Modelled from the spec: \<open>new RateLimiter(maxRate)\<close>, a limiter with the given
  maximum whose first window starts when it is created, with no send counted yet.\<close>

definition newRateLimiter :: "nat \<Rightarrow> int \<Rightarrow> RateLimiter" where
  "newRateLimiter maxRate now = \<lparr>maxCount = maxRate, windowStart = now, count = 0\<rparr>"

text \<open>Modelled from the spec: the window rollover. A call a second or more after the
  start of the current window starts a new window at the time of the call, with the
  count reset.\<close>

definition rollover :: "int \<Rightarrow> RateLimiter \<Rightarrow> RateLimiter" where
  "rollover now l =
     (if now - windowStart l \<ge> 1000 then l\<lparr>windowStart := now, count := 0\<rparr> else l)"

text \<open>Modelled from the spec: \<open>tryAcquire() -> bool\<close>, together with the state of
  the limiter after the call.\<close>

definition okayToSend :: "int \<Rightarrow> RateLimiter \<Rightarrow> bool \<times> RateLimiter" where
  "okayToSend now l =
     (let l' = rollover now l
      in if count l' \<ge> maxCount l' then (False, l)
         else (True, l'\<lparr>count := count l' + 1\<rparr>))"

text \<open>A sequence of acquisitions at the given times: for each call, its time, the start
  of the window it was attributed to and whether it was accepted.\<close>

fun acquisitions :: "RateLimiter \<Rightarrow> int list \<Rightarrow> (int \<times> int \<times> bool) list" where
  "acquisitions l [] = []"
| "acquisitions l (t # ts) =
     (t, windowStart (rollover t l), fst (okayToSend t l)) #
       acquisitions (snd (okayToSend t l)) ts"

fun limiterAfter :: "RateLimiter \<Rightarrow> int list \<Rightarrow> RateLimiter" where
  "limiterAfter l [] = l"
| "limiterAfter l (t # ts) = limiterAfter (snd (okayToSend t l)) ts"

text \<open>The number of accepted calls attributed to the window that starts at \<open>s\<close>.\<close>

definition acceptedIn :: "int \<Rightarrow> (int \<times> int \<times> bool) list \<Rightarrow> nat" where
  "acceptedIn s entries = length (filter (\<lambda>(t, win, ok). ok \<and> win = s) entries)"

section \<open>Peripheral session\<close>

text \<open>\<^verbatim>\<open>BLEService\<close>, \<^verbatim>\<open>BLECharacteristic\<close>, \<^verbatim>\<open>BLESendInterval\<close>,
  \<^verbatim>\<open>BLESendRateMax\<close>, lines 28-57.\<close>

definition UART_SERVICE :: string where
  "UART_SERVICE = ''6e400001-b5a3-f393-e0a9-e50e24dcca9e''"

definition TX :: string where
  "TX = ''6e400002-b5a3-f393-e0a9-e50e24dcca9e''"

definition BLESendInterval :: number where
  "BLESendInterval = 100"

definition BLESendRateMax :: nat where
  "BLESendRateMax = 20"

text \<open>
  Modelled from the spec: the transport class \<open>BLE\<close> of \<^verbatim>\<open>io/ble.js\<close> is not among
  the sources. The spec treats it as a capability exposing \<open>isConnected() -> bool\<close> and
  \<open>write(serviceId, characteristicId, bytes, encoding) -> outcome\<close>; the model keeps
  the connected flag and the log of write calls. The message of a write call is kept as
  the array handed to \<open>Base64Util.uint8ArrayToBase64\<close>.
\<close>

datatype writeCall = WriteCall string string "number list" string

record BLE =
  connected :: bool
  written :: "writeCall list"

text \<open>Modelled from the spec: the transport's \<open>isConnected() -> bool\<close>.\<close>

definition BLE_isConnected :: "BLE \<Rightarrow> bool" where
  "BLE_isConnected b = connected b"

text \<open>Modelled from the spec: the transport's
  \<open>write(serviceId, characteristicId, bytes, encoding) -> outcome\<close>; the call is
  appended to the log, and its outcome is the transport's own.\<close>

definition BLE_write :: "string \<Rightarrow> string \<Rightarrow> number list \<Rightarrow> string \<Rightarrow> BLE \<Rightarrow> BLE" where
  "BLE_write service characteristic message encoding b =
     b\<lparr>written := written b @ [WriteCall service characteristic message encoding]\<rparr>"

text \<open>The fields of class \<^verbatim>\<open>Root\<close>, constructor lines 102-150. A slot of
  \<open>colorData\<close> or \<open>colorSums\<close> is \<open>Some n\<close> when it holds the number \<open>n\<close> and
  \<open>None\<close> when it holds no number (an empty slot, or \<open>NaN\<close>).\<close>

record bumperState =
  left :: bool
  right :: bool

record touchState =
  frontLeft :: bool
  frontRight :: bool
  rearRight :: bool
  rearLeft :: bool

record Root =
  ble :: "BLE option"
  rateLimiter :: RateLimiter
  bumper :: bumperState
  touch :: touchState
  colorData :: "number option list"
  colorSums :: "number option list"

definition newRoot :: "int \<Rightarrow> Root" where
  "newRoot now =
     \<lparr> ble = None,
       rateLimiter = newRateLimiter BLESendRateMax now,
       bumper = \<lparr>left = False, right = False\<rparr>,
       touch = \<lparr>frontLeft = False, frontRight = False, rearRight = False, rearLeft = False\<rparr>,
       colorData = replicate 32 (Some 0),
       colorSums = replicate 16 (Some 0) \<rparr>"

text \<open>A session after \<open>scan\<close> and a completed connection: the transport handle exists
  and reports connected; nothing has been written yet.\<close>

definition connectedRoot :: "int \<Rightarrow> Root" where
  "connectedRoot now = (newRoot now)\<lparr>ble := Some \<lparr>connected = True, written = []\<rparr>\<rparr>"

text \<open>\<^verbatim>\<open>Root.isConnected\<close>, lines 183-189.\<close>

definition isConnected :: "Root \<Rightarrow> bool" where
  "isConnected r = (case ble r of None \<Rightarrow> False | Some b \<Rightarrow> BLE_isConnected b)"

text \<open>\<^verbatim>\<open>Root.send\<close>, lines 216-229. The result tells the two promises apart:
  \<open>Promise.resolve()\<close> and the promise returned by the transport's write.\<close>

datatype sendResult = ResolvedNoop | WritePromise

definition send :: "number list \<Rightarrow> bool \<Rightarrow> int \<Rightarrow> Root \<Rightarrow> sendResult \<times> Root" where
  "send message useLimiter now r =
     (if \<not> isConnected r then (ResolvedNoop, r)
      else if useLimiter \<and> \<not> fst (okayToSend now (rateLimiter r))
      then (ResolvedNoop, r\<lparr>rateLimiter := snd (okayToSend now (rateLimiter r))\<rparr>)
      else
        (let r' = (if useLimiter then r\<lparr>rateLimiter := snd (okayToSend now (rateLimiter r))\<rparr>
                   else r)
         in (WritePromise,
             r'\<lparr>ble := map_option (BLE_write UART_SERVICE TX message ''base64'') (ble r')\<rparr>)))"

text \<open>\<^verbatim>\<open>Root.sendPacket\<close>, lines 198-208: \<open>packetOf\<close> is the local \<open>packet\<close>;
  a missing third argument takes the default \<open>Array(16).fill(0)\<close>.\<close>

definition packetOf :: "number \<Rightarrow> number \<Rightarrow> number list \<Rightarrow> number list" where
  "packetOf deviceID commandID payload =
     (let packetID = 0; packet = [deviceID, commandID, packetID]; checksum = 0
      in (packet @ payload) @ [checksum])"

definition sendPacket :: "number \<Rightarrow> number \<Rightarrow> number list option \<Rightarrow> int \<Rightarrow> Root \<Rightarrow> sendResult \<times> Root" where
  "sendPacket deviceID commandID payload now r =
     send (packetOf deviceID commandID
             (case payload of None \<Rightarrow> replicate 16 0 | Some p \<Rightarrow> p)) True now r"


section \<open>Promises, the event emitter and timers\<close>

text \<open>
  The module-level emitter \<^verbatim>\<open>myEvents\<close> (line 22), the promises the blocks create and
  the timers they start are part of the state. A promise is settled once: \<open>resolve\<close>
  and \<open>reject\<close> on a settled promise do nothing. The callbacks the driver registers
  are all of the form \<open>() => resolve()\<close> or \<open>() => reject(reason)\<close> for one promise,
  named here by the promise's index. A timer started with \<open>setTimeout\<close> is due at the
  current time plus the delay in whole milliseconds, where a delay below 1 or above
  \<open>2147483647\<close> (the 32-bit limit of the timer) counts as 1, as in the timers of
  Node.js; the scheduler runs the due timers in order of their due time. The time is
  an idealised millisecond clock.

  \<open>stopAllRequests\<close> counts the calls of the host runtime's \<open>stopAll\<close>, which is
  outside the driver.
\<close>

datatype callback = Resolve nat | Reject nat string

datatype promiseState = Pending | Fulfilled | Rejected string

record world =
  peripheral :: Root
  myEvents :: "(string \<times> callback) list"
  timers :: "(int \<times> callback) list"
  promises :: "promiseState list"
  clock :: int
  stopAllRequests :: nat

definition newWorld :: world where
  "newWorld =
     \<lparr> peripheral = newRoot 0, myEvents = [], timers = [], promises = [], clock = 0,
       stopAllRequests = 0 \<rparr>"

definition settle :: "nat \<Rightarrow> promiseState \<Rightarrow> world \<Rightarrow> world" where
  "settle p outcome w =
     (if p < length (promises w) \<and> promises w ! p = Pending
      then w\<lparr>promises := (promises w)[p := outcome]\<rparr> else w)"

fun runCallback :: "callback \<Rightarrow> world \<Rightarrow> world" where
  "runCallback (Resolve p) w = settle p Fulfilled w"
| "runCallback (Reject p reason) w = settle p (Rejected reason) w"

fun target :: "callback \<Rightarrow> nat" where
  "target (Resolve p) = p"
| "target (Reject p reason) = p"

text \<open>\<open>myEvents.emit(name)\<close>: every listener registered for the name, in order.\<close>

definition emit :: "string \<Rightarrow> world \<Rightarrow> world" where
  "emit name w = fold runCallback (map snd (filter (\<lambda>(n, cb). n = name) (myEvents w))) w"

text \<open>The delay that \<open>setTimeout\<close> makes of its second argument.\<close>

definition timerDelay :: "number \<Rightarrow> int" where
  "timerDelay delay = (if delay < 1 \<or> 2147483647 < delay then 1 else \<lfloor>delay\<rfloor>)"

definition setTimeout :: "callback \<Rightarrow> number \<Rightarrow> world \<Rightarrow> world" where
  "setTimeout cb delay w = w\<lparr>timers := timers w @ [(clock w + timerDelay delay, cb)]\<rparr>"

text \<open>Letting the time pass until \<open>t\<close>: the timers due by then run, earliest first.\<close>

definition advanceTo :: "int \<Rightarrow> world \<Rightarrow> world" where
  "advanceTo t w =
     (let due = sort_key fst (filter (\<lambda>(due_at, cb). due_at \<le> t) (timers w));
          rest = filter (\<lambda>(due_at, cb). \<not> due_at \<le> t) (timers w)
      in fold runCallback (map snd due) (w\<lparr>timers := rest, clock := max (clock w) t\<rparr>))"

text \<open>
  The promise that five blocks build (lines 760-767, 792-799, 823-830, 847-854, 883-890):
  \<^verbatim>\<open>new Promise((resolve, reject) => { myEvents.on(signal, () => { resolve(); });
  setTimeout(() => { reject(reason); }, timeout); })\<close>.
\<close>

definition awaitSignal :: "string \<Rightarrow> string \<Rightarrow> number \<Rightarrow> world \<Rightarrow> nat \<times> world" where
  "awaitSignal signal reason timeout w =
     (let p = length (promises w);
          w1 = w\<lparr>promises := promises w @ [Pending]\<rparr>;
          w2 = w1\<lparr>myEvents := myEvents w1 @ [(signal, Resolve p)]\<rparr>
      in (p, setTimeout (Reject p reason) timeout w2))"

text \<open>The promise of the other blocks (lines 919-923, 939-943, 958-962):
  \<^verbatim>\<open>new Promise(resolve => { setTimeout(() => { resolve(); }, BLESendInterval); })\<close>.\<close>

definition awaitInterval :: "world \<Rightarrow> nat \<times> world" where
  "awaitInterval w =
     (let p = length (promises w);
          w1 = w\<lparr>promises := promises w @ [Pending]\<rparr>
      in (p, setTimeout (Resolve p) BLESendInterval w1))"

text \<open>The state after the module is loaded and the blocks are constructed, with the
  session connected.\<close>

definition connectedWorld :: world where
  "connectedWorld = newWorld\<lparr>peripheral := connectedRoot 0\<rparr>"

text \<open>What a callback settles its promise with, and the invariant that every registered
  callback belongs to a promise that exists.\<close>

fun outcome :: "callback \<Rightarrow> promiseState" where
  "outcome (Resolve p) = Fulfilled"
| "outcome (Reject p reason) = Rejected reason"

definition wfWorld :: "world \<Rightarrow> bool" where
  "wfWorld w =
     (list_all (\<lambda>cb. target cb < length (promises w)) (map snd (myEvents w)) \<and>
      list_all (\<lambda>cb. target cb < length (promises w)) (map snd (timers w)))"

section \<open>Inbound dispatch\<close>

text \<open>
  \<open>this._colorSums[detectedColor]++\<close>, line 308. In bounds it adds one to the slot (a
  slot holding no number stays so). An integer index beyond the length extends the
  array: the new slot holds \<open>NaN\<close>, the slots in between are empty. Any other key
  (negative, fractional, \<open>undefined\<close>) names a property outside the slots and leaves
  them as they are.
\<close>

definition inBounds :: "'a list \<Rightarrow> number option \<Rightarrow> bool" where
  "inBounds slots key =
     (case key of None \<Rightarrow> False
      | Some k \<Rightarrow> of_int \<lfloor>k\<rfloor> = k \<and> 0 \<le> k \<and> nat \<lfloor>k\<rfloor> < length slots)"

definition incrementSlot :: "number option list \<Rightarrow> number option \<Rightarrow> number option list" where
  "incrementSlot slots key =
     (case key of
        None \<Rightarrow> slots
      | Some k \<Rightarrow>
          if of_int \<lfloor>k\<rfloor> = k \<and> 0 \<le> k then
            (let j = nat \<lfloor>k\<rfloor>
             in if j < length slots then slots[j := map_option (\<lambda>n. n + 1) (slots ! j)]
                else slots @ replicate (j - length slots) None @ [None])
          else slots)"

definition arrayAt :: "'a option list \<Rightarrow> nat \<Rightarrow> 'a option" where
  "arrayAt xs i = (if i < length xs then xs ! i else None)"

text \<open>Whether each of a sequence of increments, done one after the other, is in bounds.\<close>

fun incrementsInBounds :: "number option list \<Rightarrow> number option list \<Rightarrow> bool" where
  "incrementsInBounds slots [] = True"
| "incrementsInBounds slots (key # keys) =
     (inBounds slots key \<and> incrementsInBounds (incrementSlot slots key) keys)"

text \<open>Lines 305-309: the histogram is cleared and recomputed from the 32 colour slots.\<close>

definition colorHistogram :: "number option list \<Rightarrow> number option list" where
  "colorHistogram cd =
     fold (\<lambda>i slots. incrementSlot slots (arrayAt cd i)) [0..<32] (replicate 16 (Some 0))"

text \<open>\<^verbatim>\<open>Root._onMessage\<close>, lines 248-329, on the decoded frame.\<close>

definition onMessage :: "frame \<Rightarrow> world \<Rightarrow> world" where
  "onMessage data w =
     (let device = elemAt data 0;
          command = elemAt data 1;
          r = peripheral w
      in if device = Some 0 \<and> command = Some 4 then
           w\<lparr>stopAllRequests := stopAllRequests w + 1\<rparr>
         else if device = Some 12 \<and> command = Some 0 then
           w\<lparr>peripheral := r\<lparr>bumper :=
               \<lparr> left = truthy (js_and (orZero (elemAt data 7)) 0x80),
                 right = truthy (js_and (orZero (elemAt data 7)) 0x40) \<rparr>\<rparr>\<rparr>
         else if device = Some 17 \<and> command = Some 0 then
           w\<lparr>peripheral := r\<lparr>touch :=
               \<lparr> frontLeft = truthy (js_and (orZero (elemAt data 7)) 0x80),
                 frontRight = truthy (js_and (orZero (elemAt data 7)) 0x40),
                 rearRight = truthy (js_and (orZero (elemAt data 7)) 0x20),
                 rearLeft = truthy (js_and (orZero (elemAt data 7)) 0x10) \<rparr>\<rparr>\<rparr>
         else if device = Some 4 \<and> command = Some 2 then
           (let colorData' = colorDataToArray (slice data 3 19)
            in w\<lparr>peripheral := r\<lparr>colorData := colorData',
                                   colorSums := colorHistogram colorData'\<rparr>\<rparr>)
         else if device = Some 2 \<and> command = Some 0 then emit ''markerFinished'' w
         else if device = Some 1 \<and> command = Some 8 then emit ''motorFinished'' w
         else if device = Some 1 \<and> command = Some 12 then emit ''motorFinished'' w
         else if device = Some 5 \<and> command = Some 0 then emit ''soundFinished'' w
         else if device = Some 5 \<and> command = Some 4 then emit ''soundFinished'' w
         else w)"

section \<open>Block operations\<close>

text \<open>A block hands its packet to \<^verbatim>\<open>sendPacket\<close> at the current time and drops the
  promise that comes back.\<close>

definition sendPacketNow :: "number \<Rightarrow> number \<Rightarrow> number list option \<Rightarrow> world \<Rightarrow> world" where
  "sendPacketNow deviceID commandID payload w =
     w\<lparr>peripheral := snd (sendPacket deviceID commandID payload (clock w) (peripheral w))\<rparr>"

text \<open>\<^verbatim>\<open>Root.stopAll\<close>, lines 331-334.\<close>

definition stopAll :: "world \<Rightarrow> world" where
  "stopAll w = (if \<not> isConnected (peripheral w) then w else sendPacketNow 0 3 None w)"

text \<open>Modelled from the spec: \<open>MathUtil.clamp\<close> of \<^verbatim>\<open>util/math-util.js\<close> is not among
  the sources; the spec calls the clamping saturating.\<close>

definition clamp :: "number \<Rightarrow> number \<Rightarrow> number \<Rightarrow> number" where
  "clamp n lo hi = min (max n lo) hi"

text \<open>
  The blocks take the numbers that \<open>Cast.toNumber\<close> made of their arguments, and return
  the index of the promise they return (\<open>None\<close> where the block returns nothing).

  The body of a class is strict code, and \<open>drivePromise\<close>, \<open>soundPromise\<close> and
  \<open>markerPromise\<close> are declared nowhere in the module. An assignment such as
  \<^verbatim>\<open>drivePromise = new Promise(...)\<close> therefore evaluates its right-hand side (the
  executor runs: the promise exists, its listener and its timer are registered) and
  then throws a \<open>ReferenceError\<close>; the \<open>return\<close> after it is not reached. A block
  that throws gives \<open>Inl\<close> of the error, with the state as the throw left it.
\<close>

datatype jsError = ReferenceError string

definition assignUndeclared :: "string \<Rightarrow> nat \<Rightarrow> world \<Rightarrow> (jsError + nat option) \<times> world" where
  "assignUndeclared name p w = (Inl (ReferenceError name), w)"

text \<open>\<^verbatim>\<open>playNote\<close>, lines 746-770.\<close>

definition playNote_payload :: "number \<Rightarrow> number \<Rightarrow> number list" where
  "playNote_payload FREQUENCY DURATION =
     (let frequency = clamp FREQUENCY 20 10000;
          duration = clamp (DURATION * 1000) 0 65535
      in (int32toArray frequency @ int16toArray duration) @ replicate 10 0)"

definition playNote :: "number \<Rightarrow> number \<Rightarrow> world \<Rightarrow> (jsError + nat option) \<times> world" where
  "playNote FREQUENCY DURATION w =
     (let duration = clamp (DURATION * 1000) 0 65535;
          w1 = sendPacketNow 5 0 (Some (playNote_payload FREQUENCY DURATION)) w;
          timeout = duration + 500;
          (p, w2) = awaitSignal ''soundFinished'' ''Sound Timeout'' timeout w1
      in assignUndeclared ''soundPromise'' p w2)"

text \<open>\<^verbatim>\<open>sayText\<close>, lines 772-802.\<close>

definition sayText_payload :: "string \<Rightarrow> number list" where
  "sayText_payload text =
     (let payload = strToArray text
      in if length payload > 16 then take 16 payload
         else payload @ replicate (16 - length payload) 0)"

definition sayText :: "string \<Rightarrow> world \<Rightarrow> (jsError + nat option) \<times> world" where
  "sayText text w =
     (if length text = 0 then (Inr None, w)
      else
        (let w1 = sendPacketNow 5 4 (Some (sayText_payload text)) w;
             timeout = 5000;
             (p, w2) = awaitSignal ''soundFinished'' ''Sound Timeout'' timeout w1
         in assignUndeclared ''soundPromise'' p w2))"

text \<open>\<^verbatim>\<open>driveDistance\<close>, lines 811-833.\<close>

definition driveDistance_payload :: "number \<Rightarrow> number list" where
  "driveDistance_payload distance = int32toArray (distance * 10) @ replicate 12 0"

definition driveDistance :: "number \<Rightarrow> world \<Rightarrow> (jsError + nat option) \<times> world" where
  "driveDistance distance w =
     (let w1 = sendPacketNow 1 8 (Some (driveDistance_payload distance)) w;
          timeout = distance * 100 + 5000;
          (p, w2) = awaitSignal ''motorFinished'' ''Motor Timeout'' timeout w1
      in assignUndeclared ''drivePromise'' p w2)"

text \<open>\<^verbatim>\<open>rotateAngle\<close>, lines 835-857.\<close>

definition rotateAngle_payload :: "number \<Rightarrow> number list" where
  "rotateAngle_payload angle = int32toArray (angle * 10) @ replicate 12 0"

definition rotateAngle :: "number \<Rightarrow> world \<Rightarrow> (jsError + nat option) \<times> world" where
  "rotateAngle angle w =
     (let w1 = sendPacketNow 1 12 (Some (rotateAngle_payload angle)) w;
          timeout = angle * 15 + 5000;
          (p, w2) = awaitSignal ''motorFinished'' ''Motor Timeout'' timeout w1
      in assignUndeclared ''drivePromise'' p w2)"

text \<open>\<^verbatim>\<open>setMarker\<close>, lines 859-893: an unknown selector is logged and the block
  returns at once.\<close>

definition setMarker_payload :: "string \<Rightarrow> number list option" where
  "setMarker_payload MARKER =
     (let payload = replicate 16 0
      in if MARKER = ''marker down'' then Some (payload[0 := 0x01])
         else if MARKER = ''marker up'' then Some (payload[0 := 0x00])
         else if MARKER = ''eraser down'' then Some (payload[0 := 0x02])
         else None)"

definition setMarker :: "string \<Rightarrow> world \<Rightarrow> (jsError + nat option) \<times> world" where
  "setMarker MARKER w =
     (case setMarker_payload MARKER of
        None \<Rightarrow> (Inr None, w)
      | Some payload \<Rightarrow>
          (let w1 = sendPacketNow 2 0 (Some payload) w;
               timeout = 5000;
               (p, w2) = awaitSignal ''markerFinished'' ''Marker Timeout'' timeout w1
           in assignUndeclared ''markerPromise'' p w2))"

text \<open>\<^verbatim>\<open>setLightsRGB\<close>, lines 902-924.\<close>

definition setLightsRGB_payload :: "number \<Rightarrow> number \<Rightarrow> number \<Rightarrow> number list" where
  "setLightsRGB_payload RED GREEN BLUE =
     (let max_val = 100;
          min_val = 0;
          red = min max_val (max min_val RED);
          green = min max_val (max min_val GREEN);
          blue = min max_val (max min_val BLUE);
          payload = replicate 16 0
      in payload[0 := 1,
                 1 := scaleBetween red min_val max_val 0 255,
                 2 := scaleBetween green min_val max_val 0 255,
                 3 := scaleBetween blue min_val max_val 0 255])"

definition setLightsRGB :: "number \<Rightarrow> number \<Rightarrow> number \<Rightarrow> world \<Rightarrow> nat option \<times> world" where
  "setLightsRGB RED GREEN BLUE w =
     (let w1 = sendPacketNow 3 2 (Some (setLightsRGB_payload RED GREEN BLUE)) w;
          (p, w2) = awaitInterval w1
      in (Some p, w2))"

text \<open>\<^verbatim>\<open>setSpeeds\<close>, lines 946-963.\<close>

definition setSpeeds_payload :: "number \<Rightarrow> number \<Rightarrow> number list" where
  "setSpeeds_payload LEFT RIGHT =
     (let left = clamp (LEFT * 10) (- 100) 100;
          right = clamp (RIGHT * 10) (- 100) 100
      in (int32toArray left @ int32toArray right) @ replicate 8 0)"

definition setSpeeds :: "number \<Rightarrow> number \<Rightarrow> world \<Rightarrow> nat option \<times> world" where
  "setSpeeds LEFT RIGHT w =
     (let w1 = sendPacketNow 1 4 (Some (setSpeeds_payload LEFT RIGHT)) w;
          (p, w2) = awaitInterval w1
      in (Some p, w2))"


section \<open>Event traces\<close>

text \<open>
  What can happen to the driver, one event at a time: time passes until a given instant
  (the timers due by then run), a frame arrives from the transport, or the host invokes
  a block (what counts is the state the call leaves, whether it returns or throws).
  \<open>run\<close> applies a sequence of events in order.
\<close>

datatype blockCall =
    DriveDistance number
  | RotateAngle number
  | SetSpeeds number number
  | SetMarker string
  | SetLightsRGB number number number
  | PlayNote number number
  | SayText string
  | StopAll

datatype event = Elapse int | Inbound frame | Invoke blockCall

fun invoke :: "blockCall \<Rightarrow> world \<Rightarrow> world" where
  "invoke (DriveDistance distance) w = snd (driveDistance distance w)"
| "invoke (RotateAngle angle) w = snd (rotateAngle angle w)"
| "invoke (SetSpeeds l r) w = snd (setSpeeds l r w)"
| "invoke (SetMarker m) w = snd (setMarker m w)"
| "invoke (SetLightsRGB r g b) w = snd (setLightsRGB r g b w)"
| "invoke (PlayNote f d) w = snd (playNote f d w)"
| "invoke (SayText text) w = snd (sayText text w)"
| "invoke StopAll w = stopAll w"

fun step :: "event \<Rightarrow> world \<Rightarrow> world" where
  "step (Elapse t) w = advanceTo t w"
| "step (Inbound data) w = onMessage data w"
| "step (Invoke c) w = invoke c w"

definition run :: "event list \<Rightarrow> world \<Rightarrow> world" where
  "run es w = fold step es w"

text \<open>The signal, if any, that \<^verbatim>\<open>_onMessage\<close> publishes for a frame (lines 312-328).\<close>

definition signalOf :: "frame \<Rightarrow> string option" where
  "signalOf data =
     (let device = elemAt data 0; command = elemAt data 1
      in if device = Some 2 \<and> command = Some 0 then Some ''markerFinished''
         else if device = Some 1 \<and> command = Some 8 then Some ''motorFinished''
         else if device = Some 1 \<and> command = Some 12 then Some ''motorFinished''
         else if device = Some 5 \<and> command = Some 0 then Some ''soundFinished''
         else if device = Some 5 \<and> command = Some 4 then Some ''soundFinished''
         else None)"

text \<open>An event that neither publishes the signal \<open>sig\<close> nor lets the time reach the
  deadline.\<close>

fun quiet :: "string \<Rightarrow> int \<Rightarrow> event \<Rightarrow> bool" where
  "quiet sig deadline (Elapse t) = (t < deadline)"
| "quiet sig deadline (Inbound data) = (signalOf data \<noteq> Some sig)"
| "quiet sig deadline (Invoke c) = True"

text \<open>Promise \<open>p\<close> is pending, and the callbacks registered for it are exactly its
  deadline timer and its listener for \<open>sig\<close>.\<close>

definition awaiting :: "nat \<Rightarrow> string \<Rightarrow> int \<Rightarrow> string \<Rightarrow> world \<Rightarrow> bool" where
  "awaiting p sig deadline reason w =
     (p < length (promises w) \<and> promises w ! p = Pending \<and>
      filter (\<lambda>(d, c). target c = p) (timers w) = [(deadline, Reject p reason)] \<and>
      filter (\<lambda>(n, c). target c = p) (myEvents w) = [(sig, Resolve p)])"



section \<open>Properties of the codec\<close>

lemma toInt32_of_int [simp]: "toInt32 (of_int n) = word_of_int n"
  by (simp add: toInt32_def)

lemma toInt32_numeral [simp]: "toInt32 (numeral m) = numeral m"
  using toInt32_of_int [of "numeral m"] by simp

lemma sint_small: "0 \<le> k \<Longrightarrow> k < 2 ^ 31 \<Longrightarrow> sint (word_of_int k :: 32 word) = k"
  by (simp add: sint_sbintrunc' signed_take_bit_int_eq_self)

lemma js_and_mask:
  assumes "(numeral m :: int) < 2 ^ 31"
  shows "js_and (of_int n) (numeral m) = of_int (n AND numeral m)"
proof -
  have b: "0 \<le> n AND numeral m" "n AND numeral m \<le> numeral m"
    by (simp_all add: AND_upper2)
  have "toInt32 (of_int n) AND toInt32 (numeral m) = (word_of_int (n AND numeral m) :: 32 word)"
    by (simp add: of_int_and_eq)
  moreover have "sint (word_of_int (n AND numeral m) :: 32 word) = n AND numeral m"
    using b assms by (intro sint_small) auto
  ultimately show ?thesis by (simp add: js_and_def fromInt32_def)
qed

lemma js_shr_small:
  assumes "0 \<le> k" "k < 2 ^ 31"
  shows "js_shr (of_int k) s = of_int (drop_bit (s mod 32) k)"
  using assms by (simp add: js_shr_def fromInt32_def sint_signed_drop_bit_eq sint_small)

lemma high_nibble_value:
  "js_shr (js_and (of_int k) 0xf0) 4 = of_int (drop_bit 4 (k AND 0xf0))"
proof -
  have 1: "js_and (of_int k) 0xf0 = of_int (k AND 0xf0)"
    by (rule js_and_mask) simp
  have "0 \<le> k AND 0xf0" "k AND 0xf0 \<le> 0xf0" by (simp_all add: AND_upper2)
  then show ?thesis unfolding 1 by (subst js_shr_small) auto
qed

lemma low_nibble_value: "js_and (of_int k) 0x0f = of_int (k AND 0x0f)"
  by (rule js_and_mask) simp

lemma div16_bounds: "0 \<le> x \<Longrightarrow> x \<le> 240 \<Longrightarrow> 0 \<le> x div 16 \<and> x div 16 \<le> (15::int)"
  by arith

lemma high_nibble_bounds:
  "0 \<le> drop_bit 4 (k AND 0xf0) \<and> drop_bit 4 (k AND 0xf0) \<le> (15::int)"
proof -
  have "0 \<le> k AND 0xf0" "k AND 0xf0 \<le> 0xf0" by (simp_all add: AND_upper2)
  from div16_bounds [OF this] show ?thesis by (simp add: drop_bit_eq_div)
qed

lemma low_nibble_bounds: "0 \<le> k AND 0x0f \<and> k AND 0x0f \<le> (15::int)"
  by (simp add: AND_upper2)

lemma elemAt_value:
  "orZero (elemAt d i) = of_int (if i < length d then uint (d ! i) else 0)"
  by (simp add: elemAt_def orZero_def)

lemma nibble_of_int: "0 \<le> k \<Longrightarrow> k \<le> 15 \<Longrightarrow> inBounds (replicate 16 x) (Some (of_int k))"
  by (simp add: inBounds_def)

lemma nibbles_in_range:
  "inBounds (replicate 16 x) (Some (js_shr (js_and (orZero (elemAt d i)) 0xf0) 4)) \<and>
   inBounds (replicate 16 x) (Some (js_and (orZero (elemAt d i)) 0x0f))"
  unfolding elemAt_value high_nibble_value low_nibble_value
  using high_nibble_bounds low_nibble_bounds by (intro conjI nibble_of_int) auto

lemma colorDataToArray_explicit:
  "colorDataToArray d =
     concat (map (\<lambda>i. [Some (js_shr (js_and (orZero (elemAt d i)) 0xf0) 4),
                         Some (js_and (orZero (elemAt d i)) 0x0f)]) [0..<16])"
  by (simp add: colorDataToArray_def upt_rec eval_nat_numeral)

lemma length_fold_update:
  "length (fold (\<lambda>i a. (a[p i := x i])[q i := y i]) is xs) = length xs"
  by (induction "is" arbitrary: xs) simp_all

lemma length_colorDataToArray: "length (colorDataToArray d) = 32"
  by (simp add: colorDataToArray_def length_fold_update)

lemma colorDataToArray_in_range:
  "v \<in> set (colorDataToArray d) \<Longrightarrow> inBounds (replicate 16 x) v"
  unfolding colorDataToArray_explicit using nibbles_in_range [of x d] by auto

lemma inBounds_length: "length a = length b \<Longrightarrow> inBounds a k = inBounds b k"
  by (simp add: inBounds_def split: option.splits)

lemma length_incrementSlot: "inBounds slots k \<Longrightarrow> length (incrementSlot slots k) = length slots"
  by (auto simp: inBounds_def incrementSlot_def Let_def split: option.splits)

lemma filled_incrementSlot:
  "inBounds slots k \<Longrightarrow> None \<notin> set slots \<Longrightarrow> None \<notin> set (incrementSlot slots k)"
  by (auto simp: inBounds_def incrementSlot_def Let_def set_conv_nth nth_list_update split: option.splits)

lemma increments_all_in_bounds:
  assumes "\<forall>k\<in>set keys. inBounds slots k"
  shows "incrementsInBounds slots keys \<and>
         length (fold (\<lambda>k s. incrementSlot s k) keys slots) = length slots \<and>
         (None \<notin> set slots \<longrightarrow> None \<notin> set (fold (\<lambda>k s. incrementSlot s k) keys slots))"
  using assms
proof (induction keys arbitrary: slots)
  case Nil
  then show ?case by simp
next
  case (Cons k keys)
  have k: "inBounds slots k" using Cons.prems by simp
  have "\<forall>j\<in>set keys. inBounds (incrementSlot slots k) j"
    using Cons.prems inBounds_length [OF length_incrementSlot [OF k]] by simp
  from Cons.IH [OF this] show ?case
    using k by (simp add: length_incrementSlot filled_incrementSlot)
qed

lemma colorHistogram_keys:
  "colorHistogram cd = fold (\<lambda>k s. incrementSlot s k) (map (arrayAt cd) [0..<32]) (replicate 16 (Some 0))"
  by (simp add: colorHistogram_def fold_map comp_def)

lemma arrayAt_colorDataToArray:
  "i < 32 \<Longrightarrow> arrayAt (colorDataToArray d) i \<in> set (colorDataToArray d)"
  by (simp add: arrayAt_def length_colorDataToArray)

lemma truthy_mask:
  assumes m: "(numeral m :: int) < 2 ^ 31" and u: "uint (numeral m :: 8 word) = numeral m"
  shows "truthy (js_and (orZero (elemAt d i)) (numeral m)) =
         (i < length d \<and> d ! i AND numeral m \<noteq> 0)"
proof -
  have "js_and (orZero (elemAt d i)) (numeral m) =
        of_int ((if i < length d then uint (d ! i) else 0) AND numeral m)"
    unfolding elemAt_value by (rule js_and_mask [OF m])
  moreover have "uint (d ! i AND numeral m) = uint (d ! i) AND numeral m"
    unfolding uint_and u ..
  moreover have "(uint (d ! i AND numeral m) = 0) = (d ! i AND numeral m = 0)"
    by (simp add: unsigned_eq_0_iff)
  ultimately show ?thesis unfolding truthy_def by (cases "i < length d") simp_all
qed

lemma colorDataToArray_0x11: "colorDataToArray (replicate 16 0x11) = replicate 32 (Some 1)"
  by code_simp

lemma colorHistogram_all_1: "colorHistogram (replicate 32 (Some 1)) = (replicate 16 (Some 0))[1 := Some 32]"
  by code_simp


text \<open>
  What \<^verbatim>\<open>int16toArray\<close> and \<^verbatim>\<open>int32toArray\<close> return for every integer:
  \<^verbatim>\<open>int16toArray\<close> gives the two low bytes, which read back as \<open>n mod 2^16\<close>;
  \<^verbatim>\<open>int32toArray\<close> gives three bytes and, first, the signed top byte, so that
  the result reads back as the signed 32-bit value of \<open>n\<close>: \<open>n mod 2^32\<close> when
  that is below \<open>2^31\<close>, and \<open>n mod 2^32 - 2^32\<close> otherwise, with a negative first
  element.
\<close>

lemma and_255: "(n::int) AND 255 = n mod 256"
proof -
  have m: "(255::int) = mask 8" by (simp add: mask_eq_exp_minus_1)
  have "n AND mask 8 = n mod 2 ^ 8"
    unfolding take_bit_eq_mask [symmetric] by (rule take_bit_eq_mod)
  then show ?thesis unfolding m [symmetric] by simp
qed

lemma byte_at_8: "drop_bit 8 ((n::int) AND 0xff00) = n div 2 ^ 8 mod 256"
proof -
  have "drop_bit 8 (n AND 0xff00) = drop_bit 8 n AND drop_bit 8 0xff00"
    by (rule drop_bit_and)
  also have "drop_bit 8 (0xff00::int) = 255" by (simp add: drop_bit_eq_div)
  finally show ?thesis by (simp add: and_255 drop_bit_eq_div)
qed

lemma byte_at_16: "drop_bit 16 ((n::int) AND 0xff0000) = n div 2 ^ 16 mod 256"
proof -
  have "drop_bit 16 (n AND 0xff0000) = drop_bit 16 n AND drop_bit 16 0xff0000"
    by (rule drop_bit_and)
  also have "drop_bit 16 (0xff0000::int) = 255" by (simp add: drop_bit_eq_div)
  finally show ?thesis by (simp add: and_255 drop_bit_eq_div)
qed

lemma int16toArray_value:
  "int16toArray (of_int n) = [of_int (n div 2 ^ 8 mod 256), of_int (n mod 256)]"
proof -
  have 1: "js_and (of_int n) 0x0000ff00 = of_int (n AND 0xff00)" by (rule js_and_mask) simp
  have 2: "js_and (of_int n) 0x000000ff = of_int (n AND 0xff)" by (rule js_and_mask) simp
  have "0 \<le> n AND 0xff00" "n AND 0xff00 \<le> 0xff00" by (simp_all add: AND_upper2)
  then have 3: "js_shr (of_int (n AND 0xff00)) 8 = of_int (drop_bit 8 (n AND 0xff00))"
    by (subst js_shr_small) auto
  show ?thesis
    unfolding int16toArray_def 1 2 3 byte_at_8 and_255 by simp
qed

lemma isByte_of_int: "isByte (of_int k) = (0 \<le> k \<and> k \<le> 255)"
  by (simp add: isByte_def)

lemma fromBigEndian_2: "fromBigEndian [of_int a, of_int b] = of_int (a * 256 + b)"
  by (simp add: fromBigEndian_def)

lemma int16toArray_roundtrip:
  "fromBigEndian (int16toArray (of_int n)) = of_int (n mod 2 ^ 16) \<and>
   list_all isByte (int16toArray (of_int n))"
proof -
  have "n mod (256 * 256) = 256 * (n div 256 mod 256) + n mod 256"
    by (rule zmod_zmult2_eq) simp
  then have s: "(n div 256 mod 256) * 256 + n mod 256 = n mod 2 ^ 16" by simp
  have b: "0 \<le> n div 256 mod 256" "n div 256 mod 256 \<le> 255" "0 \<le> n mod 256" "n mod 256 \<le> 255"
    using pos_mod_bound [of 256 "n div 256"] pos_mod_bound [of 256 n] by simp_all
  have "fromBigEndian (int16toArray (of_int n)) = of_int (n mod 2 ^ 16)"
    unfolding int16toArray_value fromBigEndian_2 using s by simp
  moreover have "list_all isByte (int16toArray (of_int n))"
    unfolding int16toArray_value using b by (simp add: isByte_of_int)
  ultimately show ?thesis by simp
qed


lemma toInt32_fromInt32: "toInt32 (fromInt32 x) = x"
  unfolding fromInt32_def toInt32_of_int by simp

lemma top_mask_bits: "bit (0xff000000 :: int) j = (24 \<le> j \<and> j < 32)"
proof -
  have e: "(0xff000000 :: int) = push_bit 24 (mask 8)"
    by (simp add: push_bit_eq_mult mask_eq_exp_minus_1)
  show ?thesis unfolding e by (auto simp: bit_simps)
qed

lemma top_byte_signed:
  "drop_bit 24 (sint ((w :: 32 word) AND 0xff000000)) = drop_bit 24 (sint w)"
  by (rule bit_eqI) (auto simp: bit_simps bit_sint_iff top_mask_bits)

lemma top_byte_value:
  "js_shr (js_and (of_int n) 0xff000000) 24 = of_int (drop_bit 24 (signed_take_bit 31 n))"
proof -
  have "js_shr (js_and (of_int n) 0xff000000) 24 =
        of_int (drop_bit 24 (sint ((word_of_int n :: 32 word) AND 0xff000000)))"
    by (simp add: js_shr_def js_and_def toInt32_fromInt32 sint_signed_drop_bit_eq)
      (simp add: fromInt32_def sint_signed_drop_bit_eq)
  then show ?thesis by (simp add: top_byte_signed sint_sbintrunc')
qed

lemma int32toArray_value:
  "int32toArray (of_int n) =
     [of_int (drop_bit 24 (signed_take_bit 31 n)), of_int (n div 2 ^ 16 mod 256),
      of_int (n div 2 ^ 8 mod 256), of_int (n mod 256)]"
proof -
  have 1: "js_and (of_int n) 0x00ff0000 = of_int (n AND 0xff0000)" by (rule js_and_mask) simp
  have 2: "js_and (of_int n) 0x0000ff00 = of_int (n AND 0xff00)" by (rule js_and_mask) simp
  have 3: "js_and (of_int n) 0x000000ff = of_int (n AND 0xff)" by (rule js_and_mask) simp
  have "0 \<le> n AND 0xff0000" "n AND 0xff0000 \<le> 0xff0000" by (simp_all add: AND_upper2)
  then have 4: "js_shr (of_int (n AND 0xff0000)) 16 = of_int (drop_bit 16 (n AND 0xff0000))"
    by (subst js_shr_small) auto
  have "0 \<le> n AND 0xff00" "n AND 0xff00 \<le> 0xff00" by (simp_all add: AND_upper2)
  then have 5: "js_shr (of_int (n AND 0xff00)) 8 = of_int (drop_bit 8 (n AND 0xff00))"
    by (subst js_shr_small) auto
  show ?thesis
    unfolding int32toArray_def top_byte_value 1 2 3 4 5 byte_at_8 byte_at_16 and_255 by simp
qed

lemma fromBigEndian_4:
  "fromBigEndian [of_int a, of_int b, of_int c, of_int d] =
     of_int (((a * 256 + b) * 256 + c) * 256 + d)"
  by (simp add: fromBigEndian_def)

lemma low_three_bytes:
  "((n :: int) div 2 ^ 16 mod 256) * 2 ^ 16 + (n div 2 ^ 8 mod 256) * 2 ^ 8 + n mod 256 = n mod 2 ^ 24"
proof -
  have a: "n mod (2 ^ 16 * 256) = 2 ^ 16 * (n div 2 ^ 16 mod 256) + n mod 2 ^ 16"
    by (rule zmod_zmult2_eq) simp
  have b: "n mod (256 * 256) = 256 * (n div 256 mod 256) + n mod 256"
    by (rule zmod_zmult2_eq) simp
  show ?thesis using a b by simp
qed

lemma four_bytes_sum:
  "x = h * 2 ^ 24 + l \<Longrightarrow> a * 2 ^ 16 + b * 2 ^ 8 + c = l \<Longrightarrow>
   x = ((h * 256 + a) * 256 + b) * 256 + (c :: int)"
  by simp

lemma int32toArray_reads_signed:
  "fromBigEndian (int32toArray (of_int n)) = of_int (signed_take_bit 31 n)"
proof -
  let ?s = "signed_take_bit 31 n"
  have "take_bit 24 ?s = take_bit 24 n" by (simp add: take_bit_signed_take_bit)
  then have m: "?s mod 2 ^ 24 = n mod 2 ^ 24" by (simp add: take_bit_eq_mod)
  have d: "?s = drop_bit 24 ?s * 2 ^ 24 + ?s mod 2 ^ 24"
    unfolding drop_bit_eq_div by simp
  have l: "(n div 2 ^ 16 mod 256) * 2 ^ 16 + (n div 2 ^ 8 mod 256) * 2 ^ 8 + n mod 256 = ?s mod 2 ^ 24"
    unfolding m by (rule low_three_bytes)
  have "?s = ((drop_bit 24 ?s * 256 + n div 2 ^ 16 mod 256) * 256 + n div 2 ^ 8 mod 256) * 256 + n mod 256"
    by (rule four_bytes_sum [OF d l])
  then show ?thesis unfolding int32toArray_value fromBigEndian_4 by simp
qed

lemma int32toArray_roundtrip:
  "fromBigEndian (int32toArray (of_int n)) =
     of_int (if n mod 2 ^ 32 < 2 ^ 31 then n mod 2 ^ 32 else n mod 2 ^ 32 - 2 ^ 32)"
proof -
  have "signed_take_bit 31 n = take_bit 32 n - 2 ^ 32 * of_bool (bit n 31)"
    using signed_take_bit_eq_take_bit_minus [of 31 n] by simp
  moreover have "bit n 31 = (\<not> n mod 2 ^ 32 < 2 ^ 31)"
  proof -
    have "n mod 2 ^ 32 = take_bit 32 n" by (simp add: take_bit_eq_mod)
    moreover have "take_bit 32 n = take_bit 31 n + 2 ^ 31 * of_bool (bit n 31)"
      using take_bit_Suc_from_most [of 31 n] by simp
    moreover have "0 \<le> take_bit 31 n" "take_bit 31 n < 2 ^ 31"
      using take_bit_int_less_exp [of 31 n] by simp_all
    ultimately show ?thesis by (cases "bit n 31") simp_all
  qed
  ultimately show ?thesis
    unfolding int32toArray_reads_signed by (simp add: take_bit_eq_mod)
qed

lemma int32toArray_first_negative:
  "(int32toArray (of_int n) ! 0 < 0) = (2 ^ 31 \<le> n mod 2 ^ 32)"
proof -
  let ?s = "signed_take_bit 31 n"
  have "(drop_bit 24 ?s < 0) = (?s < 0)" by simp
  also have "\<dots> = bit n 31" by (simp add: signed_take_bit_negative_iff)
  also have "\<dots> = (2 ^ 31 \<le> n mod 2 ^ 32)"
  proof -
    have "n mod 2 ^ 32 = take_bit 32 n" by (simp add: take_bit_eq_mod)
    moreover have "take_bit 32 n = take_bit 31 n + 2 ^ 31 * of_bool (bit n 31)"
      using take_bit_Suc_from_most [of 31 n] by simp
    moreover have "0 \<le> take_bit 31 n" "take_bit 31 n < 2 ^ 31"
      using take_bit_int_less_exp [of 31 n] by simp_all
    ultimately show ?thesis by (cases "bit n 31") simp_all
  qed
  finally show ?thesis unfolding int32toArray_value by simp
qed

section \<open>The claims about the codec\<close>

text \<open>
  C4. The claim: for every integer \<open>n\<close>, \<^verbatim>\<open>int32toArray\<close> gives four bytes whose
  big-endian reading is \<open>n mod 2^32\<close>. The mask \<open>0xff000000\<close> is a negative 32-bit
  value and \<open>>>\<close> keeps the sign, so for a negative argument the first element is
  negative: \<^verbatim>\<open>driveDistance\<close> with a distance of \<open>-5\<close> calls \<open>int32toArray(-50)\<close>,
  whose result starts with \<open>-1\<close>, is not a sequence of bytes, and reads back as
  \<open>-50\<close> where \<open>(-50) mod 2^32 = 4294967246\<close>.
\<close>

theorem int32toArray_negative_input:
  "int32toArray (- 50) = [- 1, 255, 255, 206] \<and>
   \<not> isByte (int32toArray (- 50) ! 0) \<and>
   fromBigEndian (int32toArray (- 50)) = - 50 \<and>
   fromBigEndian (int32toArray (- 50)) \<noteq> of_int ((- 50) mod 2 ^ 32) \<and>
   driveDistance_payload (- 5) = [- 1, 255, 255, 206] @ replicate 12 0"
  by (simp add: int32toArray_def js_shr_def js_and_def toInt32_def fromInt32_def
        fromBigEndian_def isByte_def driveDistance_payload_def)

text \<open>
  C2 as stated: for every payload of at most 16 bytes the packet is 20 bytes, the payload
  right-padded with zeros. \<^verbatim>\<open>sendPacket\<close> does not pad: a two-byte payload gives a
  six-byte packet.
\<close>

theorem sendPacket_short_payload_counterexample:
  "length (packetOf 1 8 [4, 2]) = 6 \<and>
   packetOf 1 8 [4, 2] \<noteq> [1, 8, 0] @ ([4, 2] @ replicate 14 0) @ [0]"
  by (simp add: packetOf_def)

text \<open>
  C2, amended: for every deviceID, commandID and payload of exactly 16 bytes, the packet
  is exactly 20 bytes laid out as deviceID, commandID, packetID, the payload, checksum,
  with packetID and checksum zero.
\<close>

theorem sendPacket_layout:
  assumes "length payload = 16"
  shows "length (packetOf deviceID commandID payload) = 20 \<and>
         packetOf deviceID commandID payload = [deviceID, commandID, 0] @ payload @ [0] \<and>
         packetOf deviceID commandID payload ! 2 = 0 \<and>
         packetOf deviceID commandID payload ! 19 = 0 \<and>
         take 16 (drop 3 (packetOf deviceID commandID payload)) = payload"
  using assms by (simp add: packetOf_def nth_append)

theorem sendPacket_layout_witness:
  "length (driveDistance_payload 16) = 16 \<and>
   length (packetOf 1 8 (driveDistance_payload 16)) = 20 \<and>
   packetOf 1 8 (driveDistance_payload 16) =
     [1, 8, 0, 0, 0, 0, 160, 0, 0, 0, 0, 0, 0, 0, 0, 0, 0, 0, 0, 0]"
proof -
  have p: "driveDistance_payload 16 = [0, 0, 0, 160, 0, 0, 0, 0, 0, 0, 0, 0, 0, 0, 0, 0]"
    by code_simp
  have l: "length (driveDistance_payload 16) = 16" unfolding p by simp
  from sendPacket_layout [OF l, of 1 8] show ?thesis using l by (simp add: p)
qed

text \<open>The payloads that the blocks hand to \<^verbatim>\<open>sendPacket\<close> all have 16 elements:
  padding and truncation are done by the callers.\<close>

lemma length_int32toArray [simp]: "length (int32toArray x) = 4"
  by (simp add: int32toArray_def)

lemma length_int16toArray [simp]: "length (int16toArray x) = 2"
  by (simp add: int16toArray_def)

lemma block_payload_lengths:
  "length (driveDistance_payload distance) = 16"
  "length (rotateAngle_payload angle) = 16"
  "length (setSpeeds_payload l r) = 16"
  "length (playNote_payload f d) = 16"
  "length (sayText_payload text) = 16"
  "length (setLightsRGB_payload RED GREEN BLUE) = 16"
  "setMarker_payload MARKER = Some payload \<Longrightarrow> length payload = 16"
  by (auto simp: driveDistance_payload_def rotateAngle_payload_def setSpeeds_payload_def
        playNote_payload_def sayText_payload_def setLightsRGB_payload_def
        setMarker_payload_def Let_def split: if_splits)

text \<open>
  C7. A colour-scan frame (deviceID 4, commandID 2) whose bytes at offsets 3..18 are
  all \<open>0x11\<close> decodes to 32 values all equal to 1, and the recomputed histogram has 32
  in bin 1 and 0 in every other bin.
\<close>

theorem color_frame_0x11:
  assumes "19 \<le> length data" and "data ! 0 = 4" and "data ! 1 = 2"
    and "\<forall>i\<in>{3..18}. data ! i = 0x11"
  shows "colorData (peripheral (onMessage data w)) = replicate 32 (Some 1) \<and>
         colorSums (peripheral (onMessage data w)) = (replicate 16 (Some 0))[1 := Some 32]"
proof -
  have "0 < length data" "1 < length data" using assms(1) by arith+
  then have d: "elemAt data 0 = Some 4" "elemAt data (Suc 0) = Some 2"
    using assms(2,3) by (simp_all add: elemAt_def)
  have "slice data 3 19 = replicate 16 0x11"
    unfolding slice_def using assms(1,4) by (intro nth_equalityI) auto
  then show ?thesis
    by (simp add: onMessage_def d Let_def colorDataToArray_0x11 colorHistogram_all_1)
qed

theorem color_frame_0x11_witness:
  "colorData (peripheral (onMessage ([4, 2, 0] @ replicate 16 0x11 @ [0]) newWorld)) = replicate 32 (Some 1) \<and>
   colorSums (peripheral (onMessage ([4, 2, 0] @ replicate 16 0x11 @ [0]) newWorld)) =
     [Some 0, Some 32, Some 0, Some 0, Some 0, Some 0, Some 0, Some 0,
      Some 0, Some 0, Some 0, Some 0, Some 0, Some 0, Some 0, Some 0]"
proof -
  have "\<forall>i\<in>{3..18}. ([4, 2, 0] @ replicate 16 0x11 @ [0 :: 8 word]) ! i = 0x11"
    by code_simp
  from color_frame_0x11 [OF _ _ _ this, of newWorld] show ?thesis
    by (simp add: eval_nat_numeral)
qed


text \<open>
  C8. A bumper-event frame (deviceID 12, commandID 0) overwrites the left flag with bit
  \<open>0x80\<close> of frame byte 7 and the right flag with bit \<open>0x40\<close>, and changes nothing
  else; byte 7 = \<open>0xC0\<close> sets both flags, byte 7 = \<open>0x00\<close> clears both.
\<close>

theorem bumper_frame:
  assumes "7 < length data" and "data ! 0 = 12" and "data ! 1 = 0"
  shows "onMessage data w =
           w\<lparr>peripheral := (peripheral w)\<lparr>bumper :=
               \<lparr>left = (data ! 7 AND 0x80 \<noteq> 0), right = (data ! 7 AND 0x40 \<noteq> 0)\<rparr>\<rparr>\<rparr> \<and>
         (data ! 7 = 0xC0 \<longrightarrow> left (bumper (peripheral (onMessage data w))) \<and>
                                  right (bumper (peripheral (onMessage data w)))) \<and>
         (data ! 7 = 0x00 \<longrightarrow> \<not> left (bumper (peripheral (onMessage data w))) \<and>
                                  \<not> right (bumper (peripheral (onMessage data w))))"
proof -
  have "0 < length data" "1 < length data" using assms(1) by arith+
  then have d: "elemAt data 0 = Some 12" "elemAt data (Suc 0) = Some 0"
    using assms(2,3) by (simp_all add: elemAt_def)
  have "onMessage data w =
           w\<lparr>peripheral := (peripheral w)\<lparr>bumper :=
               \<lparr>left = (data ! 7 AND 0x80 \<noteq> 0), right = (data ! 7 AND 0x40 \<noteq> 0)\<rparr>\<rparr>\<rparr>"
    using assms(1) by (simp add: onMessage_def d Let_def truthy_mask)
  then show ?thesis by auto
qed

theorem bumper_frame_witness:
  "left (bumper (peripheral (onMessage ([12, 0, 0, 0, 0, 0, 0, 0xC0] @ replicate 12 0) newWorld))) \<and>
   right (bumper (peripheral (onMessage ([12, 0, 0, 0, 0, 0, 0, 0xC0] @ replicate 12 0) newWorld))) \<and>
   \<not> left (bumper (peripheral (onMessage ([12, 0, 0, 0, 0, 0, 0, 0] @ replicate 12 0)
        (onMessage ([12, 0, 0, 0, 0, 0, 0, 0xC0] @ replicate 12 0) newWorld)))) \<and>
   \<not> right (bumper (peripheral (onMessage ([12, 0, 0, 0, 0, 0, 0, 0] @ replicate 12 0)
        (onMessage ([12, 0, 0, 0, 0, 0, 0, 0xC0] @ replicate 12 0) newWorld))))"
  using bumper_frame [of "[12, 0, 0, 0, 0, 0, 0, 0xC0] @ replicate 12 0" newWorld]
    bumper_frame [of "[12, 0, 0, 0, 0, 0, 0, 0] @ replicate 12 0"
       "onMessage ([12, 0, 0, 0, 0, 0, 0, 0xC0] @ replicate 12 0) newWorld"]
  by simp


text \<open>
  C10. Whatever the bytes of the input, the colour-nibble decode gives 32 values, each
  a whole number from 0 to 15; so each of the 32 increments of the colour-scan handler
  is within the 16 slots of the histogram, which keeps its 16 slots, all of them
  numbers.
\<close>

theorem color_decode_in_bounds:
  "length (colorDataToArray d) = 32 \<and>
   (\<forall>v\<in>set (colorDataToArray d). \<exists>k. v = Some (of_int k) \<and> 0 \<le> k \<and> k \<le> 15) \<and>
   incrementsInBounds (replicate 16 (Some 0)) (map (arrayAt (colorDataToArray d)) [0..<32]) \<and>
   length (colorHistogram (colorDataToArray d)) = 16 \<and>
   None \<notin> set (colorHistogram (colorDataToArray d))"
proof -
  have keys: "\<forall>k\<in>set (map (arrayAt (colorDataToArray d)) [0..<32]). inBounds (replicate 16 (Some (0::number))) k"
  proof
    fix k assume "k \<in> set (map (arrayAt (colorDataToArray d)) [0..<32])"
    then have "k \<in> set (colorDataToArray d)" using arrayAt_colorDataToArray by auto
    then show "inBounds (replicate 16 (Some (0::number))) k" by (rule colorDataToArray_in_range)
  qed
  have vals: "\<forall>v\<in>set (colorDataToArray d). \<exists>k. v = Some (of_int k) \<and> 0 \<le> k \<and> k \<le> 15"
  proof
    fix v assume "v \<in> set (colorDataToArray d)"
    then have "inBounds (replicate 16 (0::nat)) v" by (rule colorDataToArray_in_range)
    then obtain q where q: "v = Some q" "of_int \<lfloor>q\<rfloor> = q" "0 \<le> q" "nat \<lfloor>q\<rfloor> < 16"
      by (auto simp: inBounds_def split: option.splits)
    then have "v = Some (of_int \<lfloor>q\<rfloor>) \<and> 0 \<le> \<lfloor>q\<rfloor> \<and> \<lfloor>q\<rfloor> \<le> 15" by auto
    then show "\<exists>k. v = Some (of_int k) \<and> 0 \<le> k \<and> k \<le> 15" by blast
  qed
  show ?thesis
    using increments_all_in_bounds [OF keys] vals
    by (simp add: length_colorDataToArray colorHistogram_keys)
qed


theorem color_decode_in_bounds_witness:
  "length (colorDataToArray [0xA7, 0x3C]) = 32 \<and>
   colorDataToArray [0xA7, 0x3C] ! 0 = Some 10 \<and>
   (\<exists>k. colorDataToArray [0xA7, 0x3C] ! 0 = Some (of_int k) \<and> 0 \<le> k \<and> k \<le> 15) \<and>
   incrementsInBounds (replicate 16 (Some 0)) (map (arrayAt (colorDataToArray [0xA7, 0x3C])) [0..<32]) \<and>
   length (colorHistogram (colorDataToArray [0xA7, 0x3C])) = 16"
proof -
  have v: "colorDataToArray [0xA7, 0x3C] =
             [Some 10, Some 7, Some 3, Some 12] @ replicate 28 (Some 0)"
    by code_simp
  have "colorDataToArray [0xA7, 0x3C] ! 0 \<in> set (colorDataToArray [0xA7, 0x3C])"
    unfolding v by simp
  with color_decode_in_bounds [of "[0xA7, 0x3C]"] show ?thesis
    by (auto simp: v)
qed


section \<open>Properties of the rate limiter\<close>

lemma okayToSend_invariant:
  "count l \<le> maxCount l \<Longrightarrow> count (snd (okayToSend t l)) \<le> maxCount (snd (okayToSend t l))"
  by (auto simp: okayToSend_def rollover_def Let_def)

lemma okayToSend_maxCount [simp]: "maxCount (snd (okayToSend t l)) = maxCount l"
  by (auto simp: okayToSend_def rollover_def Let_def)

lemma okayToSend_windowStart_mono: "windowStart l \<le> windowStart (snd (okayToSend t l))"
  by (auto simp: okayToSend_def rollover_def Let_def)

lemma acceptedIn_Cons:
  "acceptedIn s ((t, win, ok) # entries) = (if ok \<and> win = s then 1 else 0) + acceptedIn s entries"
  by (simp add: acceptedIn_def)

lemma acceptedIn_Nil [simp]: "acceptedIn s [] = 0"
  by (simp add: acceptedIn_def)

lemma accepted_per_window:
  "count l \<le> maxCount l \<Longrightarrow>
   acceptedIn s (acquisitions l ts) + (if s = windowStart l then count l else 0) \<le> maxCount l \<and>
   (s < windowStart l \<longrightarrow> acceptedIn s (acquisitions l ts) = 0)"
proof (induction ts arbitrary: l)
  case Nil
  then show ?case by simp
next
  case (Cons t ts)
  let ?l = "snd (okayToSend t l)"
  have inv: "count ?l \<le> maxCount ?l" using Cons.prems by (rule okayToSend_invariant)
  have IH: "acceptedIn s (acquisitions ?l ts) + (if s = windowStart ?l then count ?l else 0) \<le> maxCount l"
    "s < windowStart ?l \<longrightarrow> acceptedIn s (acquisitions ?l ts) = 0"
    using Cons.IH [OF inv] by simp_all
  show ?case
  proof (cases "t - windowStart l \<ge> 1000")
    case True
    show ?thesis
    proof (cases "maxCount l = 0")
      case True
      then show ?thesis using IH \<open>t - windowStart l \<ge> 1000\<close> Cons.prems
        by (auto simp: acceptedIn_Cons okayToSend_def rollover_def Let_def)
    next
      case False
      then have l': "?l = l\<lparr>windowStart := t, count := 1\<rparr>" "fst (okayToSend t l)"
        using True by (simp_all add: okayToSend_def rollover_def Let_def)
      show ?thesis using IH True False Cons.prems unfolding l'(1)
        by (auto simp: acceptedIn_Cons l' rollover_def split: if_splits)
    qed
  next
    case False
    show ?thesis
    proof (cases "count l \<ge> maxCount l")
      case True
      then have l': "?l = l" "\<not> fst (okayToSend t l)"
        using False by (simp_all add: okayToSend_def rollover_def Let_def)
      show ?thesis using IH Cons.prems unfolding l'(1)
        by (auto simp: acceptedIn_Cons l' rollover_def split: if_splits)
    next
      case c: False
      then have l': "?l = l\<lparr>count := count l + 1\<rparr>" "fst (okayToSend t l)"
        using False by (simp_all add: okayToSend_def rollover_def Let_def)
      show ?thesis using IH False c Cons.prems unfolding l'(1)
        by (auto simp: acceptedIn_Cons l' rollover_def split: if_splits)
    qed
  qed
qed

lemma burst_in_window:
  "\<forall>t\<in>set ts. t - windowStart l < 1000 \<Longrightarrow> count l \<le> maxCount l \<Longrightarrow>
   map (snd \<circ> snd) (acquisitions l ts) =
     replicate (min (length ts) (maxCount l - count l)) True @
     replicate (length ts - (maxCount l - count l)) False \<and>
   windowStart (limiterAfter l ts) = windowStart l \<and>
   maxCount (limiterAfter l ts) = maxCount l"
proof (induction ts arbitrary: l)
  case Nil
  then show ?case by simp
next
  case (Cons t ts)
  have t: "\<not> t - windowStart l \<ge> 1000" using Cons.prems(1) by simp
  show ?case
  proof (cases "count l \<ge> maxCount l")
    case True
    then have l': "snd (okayToSend t l) = l" "\<not> fst (okayToSend t l)"
      using t by (simp_all add: okayToSend_def rollover_def Let_def)
    have "maxCount l - count l = 0" using True by simp
    then show ?thesis using Cons.IH [of l] Cons.prems l' by simp
  next
    case False
    then have l': "snd (okayToSend t l) = l\<lparr>count := count l + 1\<rparr>" "fst (okayToSend t l)"
      using t by (simp_all add: okayToSend_def rollover_def Let_def)
    obtain k where k: "maxCount l - count l = Suc k" "maxCount l - (count l + 1) = k"
      using False by (cases "maxCount l - count l") auto
    show ?thesis using Cons.IH [of "l\<lparr>count := count l + 1\<rparr>"] Cons.prems False l' k
      by simp
  qed
qed

lemma window_interval:
  "sorted ts \<Longrightarrow> \<forall>t\<in>set ts. windowStart l \<le> t \<Longrightarrow> 0 < maxCount l \<Longrightarrow>
   list_all (\<lambda>(t, win, ok). win \<le> t \<and> t - win < 1000) (acquisitions l ts)"
proof (induction ts arbitrary: l)
  case Nil
  then show ?case by simp
next
  case (Cons t ts)
  let ?l = "snd (okayToSend t l)"
  have w: "windowStart ?l = windowStart l \<or> windowStart ?l = t"
    by (auto simp: okayToSend_def rollover_def Let_def)
  have "\<forall>u\<in>set ts. windowStart ?l \<le> u" using w Cons.prems(1,2) by auto
  moreover have "sorted ts" using Cons.prems(1) by simp
  ultimately have "list_all (\<lambda>(t, win, ok). win \<le> t \<and> t - win < 1000) (acquisitions ?l ts)"
    using Cons.IH [of ?l] Cons.prems(3) by simp
  then show ?case using Cons.prems(2) by (simp add: rollover_def)
qed

lemma accepted_after_rollover:
  "0 < maxCount l \<Longrightarrow> t - windowStart l \<ge> 1000 \<Longrightarrow> fst (okayToSend t l)"
  by (simp add: okayToSend_def rollover_def Let_def)

text \<open>
  C5. The driver's limiter (\<open>BLESendRateMax = 20\<close>), in any sequence of acquisitions:
  at most 20 calls are accepted in any one window of the limiter, whatever the times of
  the calls; when the times do not go backwards, the calls attributed to a window lie
  within one second of its start. A burst of 25 calls within the first window gives 20
  accepted, then 5 rejected, and any call a second or more after the start of that
  window is accepted again.
\<close>

theorem rate_limiter_window:
  "acceptedIn s (acquisitions (newRateLimiter BLESendRateMax now) ts) \<le> 20 \<and>
   (sorted ts \<and> (\<forall>t\<in>set ts. now \<le> t) \<longrightarrow>
      list_all (\<lambda>(t, win, ok). win \<le> t \<and> t - win < 1000)
        (acquisitions (newRateLimiter BLESendRateMax now) ts)) \<and>
   (length ts = 25 \<and> (\<forall>t\<in>set ts. t - now < 1000) \<longrightarrow>
      map (snd \<circ> snd) (acquisitions (newRateLimiter BLESendRateMax now) ts) =
        replicate 20 True @ replicate 5 False \<and>
      (\<forall>t'. t' - now \<ge> 1000 \<longrightarrow>
         fst (okayToSend t' (limiterAfter (newRateLimiter BLESendRateMax now) ts))))"
proof -
  let ?l = "newRateLimiter BLESendRateMax now"
  have l: "count ?l = 0" "maxCount ?l = 20" "windowStart ?l = now"
    by (simp_all add: newRateLimiter_def BLESendRateMax_def)
  have 1: "acceptedIn s (acquisitions ?l ts) \<le> 20"
    using accepted_per_window [of ?l s ts] l by simp
  have 2: "map (snd \<circ> snd) (acquisitions ?l ts) = replicate 20 True @ replicate 5 False \<and>
           (\<forall>t'. t' - now \<ge> 1000 \<longrightarrow> fst (okayToSend t' (limiterAfter ?l ts)))"
    if "length ts = 25" "\<forall>t\<in>set ts. t - now < 1000"
  proof -
    have b: "map (snd \<circ> snd) (acquisitions ?l ts) =
       replicate (min (length ts) (maxCount ?l - count ?l)) True @
       replicate (length ts - (maxCount ?l - count ?l)) False \<and>
       windowStart (limiterAfter ?l ts) = windowStart ?l \<and>
       maxCount (limiterAfter ?l ts) = maxCount ?l"
      by (rule burst_in_window) (use that l in simp_all)
    then show ?thesis using that(1) l accepted_after_rollover [of "limiterAfter ?l ts"]
      by simp
  qed
  have 3: "list_all (\<lambda>(t, win, ok). win \<le> t \<and> t - win < 1000) (acquisitions ?l ts)"
    if "sorted ts" "\<forall>t\<in>set ts. now \<le> t"
    by (rule window_interval) (use that l in simp_all)
  show ?thesis using 1 2 3 by blast
qed

theorem rate_limiter_window_witness:
  "sorted (map int [0..<25]) \<and>
   list_all (\<lambda>(t, win, ok). win \<le> t \<and> t - win < 1000)
     (acquisitions (newRateLimiter BLESendRateMax 0) (map int [0..<25])) \<and>
   acceptedIn 0 (acquisitions (newRateLimiter BLESendRateMax 0) (map int [0..<25])) \<le> 20 \<and>
   map (snd \<circ> snd) (acquisitions (newRateLimiter BLESendRateMax 0) (map int [0..<25])) =
     replicate 20 True @ replicate 5 False \<and>
   fst (okayToSend 1000 (limiterAfter (newRateLimiter BLESendRateMax 0) (map int [0..<25])))"
proof -
  have "length (map int [0..<25]) = 25 \<and> (\<forall>t\<in>set (map int [0..<25]). t - 0 < 1000)"
    by auto
  moreover have "sorted (map int [0..<25]) \<and> (\<forall>t\<in>set (map int [0..<25]). 0 \<le> t)"
    by (auto simp: sorted_map sorted_wrt_iff_nth_less)
  ultimately show ?thesis using rate_limiter_window [of 0 0 "map int [0..<25]"] by simp
qed

section \<open>The send path\<close>

lemma okayToSend_rejected: "\<not> fst (okayToSend now l) \<Longrightarrow> snd (okayToSend now l) = l"
  by (simp add: okayToSend_def Let_def split: if_splits)

text \<open>
  C6. \<^verbatim>\<open>send\<close>: when the session is not connected the call resolves and nothing
  changes; when it is connected, the limiter is asked for and rejects, the call resolves
  and nothing changes (the message is dropped); otherwise the message is handed to the
  transport's write, on the UART service and TX characteristic.
\<close>

theorem send_cases:
  "(\<not> isConnected r \<longrightarrow> send message useLimiter now r = (ResolvedNoop, r)) \<and>
   (isConnected r \<and> useLimiter \<and> \<not> fst (okayToSend now (rateLimiter r)) \<longrightarrow>
      send message useLimiter now r = (ResolvedNoop, r)) \<and>
   (isConnected r \<and> (useLimiter \<longrightarrow> fst (okayToSend now (rateLimiter r))) \<longrightarrow>
      fst (send message useLimiter now r) = WritePromise \<and>
      (\<exists>b. ble r = Some b \<and>
           ble (snd (send message useLimiter now r)) =
             Some (b\<lparr>written := written b @ [WriteCall UART_SERVICE TX message ''base64'']\<rparr>)))"
  by (auto simp: send_def isConnected_def BLE_write_def okayToSend_rejected split: option.splits)

theorem send_cases_witness:
  "\<not> isConnected (newRoot 0) \<and> send [1, 2] True 0 (newRoot 0) = (ResolvedNoop, newRoot 0) \<and>
   isConnected ((connectedRoot 0)\<lparr>rateLimiter := \<lparr>maxCount = 20, windowStart = 0, count = 20\<rparr>\<rparr>) \<and>
   \<not> fst (okayToSend 5 \<lparr>maxCount = 20, windowStart = 0, count = 20\<rparr>) \<and>
   send [1, 2] True 5 ((connectedRoot 0)\<lparr>rateLimiter := \<lparr>maxCount = 20, windowStart = 0, count = 20\<rparr>\<rparr>)
     = (ResolvedNoop, (connectedRoot 0)\<lparr>rateLimiter := \<lparr>maxCount = 20, windowStart = 0, count = 20\<rparr>\<rparr>) \<and>
   isConnected (connectedRoot 0) \<and> fst (okayToSend 5 (rateLimiter (connectedRoot 0))) \<and>
   fst (send [1, 2] True 5 (connectedRoot 0)) = WritePromise \<and>
   ble (snd (send [1, 2] True 5 (connectedRoot 0))) =
     Some \<lparr>connected = True, written = [WriteCall UART_SERVICE TX [1, 2] ''base64'']\<rparr>"
  using send_cases [of "newRoot 0" "[1, 2]" True 0]
    send_cases [of "(connectedRoot 0)\<lparr>rateLimiter := \<lparr>maxCount = 20, windowStart = 0, count = 20\<rparr>\<rparr>" "[1, 2]" True 5]
    send_cases [of "connectedRoot 0" "[1, 2]" True 5]
  by (simp add: connectedRoot_def newRoot_def isConnected_def BLE_isConnected_def okayToSend_def rollover_def
       newRateLimiter_def BLESendRateMax_def)

section \<open>Lights\<close>

lemma sendPacketNow_written:
  assumes "isConnected (peripheral w)" "fst (okayToSend (clock w) (rateLimiter (peripheral w)))"
  shows "\<exists>b. ble (peripheral w) = Some b \<and>
           ble (peripheral (sendPacketNow d c (Some payload) w)) =
             Some (b\<lparr>written := written b @ [WriteCall UART_SERVICE TX (packetOf d c payload) ''base64'']\<rparr>)"
  using assms by (auto simp: sendPacketNow_def sendPacket_def send_def isConnected_def BLE_write_def split: option.splits)

lemma awaitInterval_peripheral [simp]: "peripheral (snd (awaitInterval w)) = peripheral w"
  by (simp add: awaitInterval_def setTimeout_def Let_def)

lemma setLightsRGB_peripheral:
  "peripheral (snd (setLightsRGB R G B w)) = peripheral (sendPacketNow 3 2 (Some (setLightsRGB_payload R G B)) w)"
  by (simp add: setLightsRGB_def Let_def split: prod.splits)
    (metis awaitInterval_peripheral snd_conv)

text \<open>
  C9. \<^verbatim>\<open>setLightsRGB\<close>: each channel is clamped to [0,100] and then scaled by
  \<open>255 / 100\<close>, so that the three payload entries lie in [0,255]; red = 150 gives the
  same call as red = 100, with 255 in the red entry; on a connected session whose
  limiter accepts, the packet with this payload is what is written.
\<close>

theorem setLightsRGB_clamps_then_scales:
  "setLightsRGB_payload RED GREEN BLUE =
     [1, 255 * min 100 (max 0 RED) / 100, 255 * min 100 (max 0 GREEN) / 100,
      255 * min 100 (max 0 BLUE) / 100] @ replicate 12 0 \<and>
   0 \<le> setLightsRGB_payload RED GREEN BLUE ! 1 \<and> setLightsRGB_payload RED GREEN BLUE ! 1 \<le> 255 \<and>
   0 \<le> setLightsRGB_payload RED GREEN BLUE ! 2 \<and> setLightsRGB_payload RED GREEN BLUE ! 2 \<le> 255 \<and>
   0 \<le> setLightsRGB_payload RED GREEN BLUE ! 3 \<and> setLightsRGB_payload RED GREEN BLUE ! 3 \<le> 255 \<and>
   setLightsRGB 150 GREEN BLUE w = setLightsRGB 100 GREEN BLUE w \<and>
   setLightsRGB_payload 150 GREEN BLUE ! 1 = 255 \<and>
   (isConnected (peripheral w) \<and> fst (okayToSend (clock w) (rateLimiter (peripheral w))) \<longrightarrow>
      (\<exists>b. ble (peripheral w) = Some b \<and>
         ble (peripheral (snd (setLightsRGB RED GREEN BLUE w))) =
           Some (b\<lparr>written := written b @
             [WriteCall UART_SERVICE TX (packetOf 3 2 (setLightsRGB_payload RED GREEN BLUE)) ''base64'']\<rparr>)))"
proof -
  have p: "setLightsRGB_payload RED GREEN BLUE =
     [1, 255 * min 100 (max 0 RED) / 100, 255 * min 100 (max 0 GREEN) / 100,
      255 * min 100 (max 0 BLUE) / 100] @ replicate 12 0"
    by (simp add: setLightsRGB_payload_def scaleBetween_def numeral_eq_Suc)
  have b: "\<And>x :: number. 0 \<le> 255 * min 100 (max 0 x) / 100 \<and> 255 * min 100 (max 0 x) / 100 \<le> 255"
    by (auto simp: min_def max_def)
  have e: "setLightsRGB_payload 150 GREEN BLUE = setLightsRGB_payload 100 GREEN BLUE"
    by (simp add: setLightsRGB_payload_def)
  have 1: "setLightsRGB 150 GREEN BLUE w = setLightsRGB 100 GREEN BLUE w"
    by (simp add: setLightsRGB_def e)
  have 2: "setLightsRGB_payload 150 GREEN BLUE ! 1 = 255"
    by (simp add: setLightsRGB_payload_def scaleBetween_def)
  show ?thesis
    using b [of RED] b [of GREEN] b [of BLUE] 1 2 sendPacketNow_written [of w 3 2 "setLightsRGB_payload RED GREEN BLUE"]
    unfolding setLightsRGB_peripheral
    by (simp add: p)
qed

theorem setLightsRGB_clamps_then_scales_witness:
  "isConnected (peripheral connectedWorld) \<and>
   fst (okayToSend (clock connectedWorld) (rateLimiter (peripheral connectedWorld))) \<and>
   setLightsRGB_payload 150 50 (- 3) = [1, 255, 255 / 2, 0, 0, 0, 0, 0, 0, 0, 0, 0, 0, 0, 0, 0] \<and>
   ble (peripheral (snd (setLightsRGB 150 50 (- 3) connectedWorld))) =
     Some \<lparr>connected = True, written =
       [WriteCall UART_SERVICE TX
          [3, 2, 0, 1, 255, 255 / 2, 0, 0, 0, 0, 0, 0, 0, 0, 0, 0, 0, 0, 0, 0] ''base64'']\<rparr>"
proof -
  have c: "isConnected (peripheral connectedWorld) \<and>
           fst (okayToSend (clock connectedWorld) (rateLimiter (peripheral connectedWorld)))"
    by (simp add: connectedWorld_def newWorld_def connectedRoot_def newRoot_def isConnected_def
          BLE_isConnected_def okayToSend_def rollover_def newRateLimiter_def BLESendRateMax_def)
  have b: "ble (peripheral connectedWorld) = Some \<lparr>connected = True, written = []\<rparr>"
    by (simp add: connectedWorld_def newWorld_def connectedRoot_def newRoot_def)
  have p: "setLightsRGB_payload 150 50 (- 3) = [1, 255, 255 / 2, 0, 0, 0, 0, 0, 0, 0, 0, 0, 0, 0, 0, 0]"
    by (simp add: setLightsRGB_payload_def scaleBetween_def numeral_eq_Suc)
  from setLightsRGB_clamps_then_scales [of 150 50 "- 3" connectedWorld] c
  have "\<exists>b. ble (peripheral connectedWorld) = Some b \<and>
         ble (peripheral (snd (setLightsRGB 150 50 (- 3) connectedWorld))) =
           Some (b\<lparr>written := written b @
             [WriteCall UART_SERVICE TX (packetOf 3 2 (setLightsRGB_payload 150 50 (- 3))) ''base64'']\<rparr>)"
    by blast
  then show ?thesis using c b by (auto simp: packetOf_def p)
qed

section \<open>Promises settle once\<close>

lemma settle_fields [simp]:
  "myEvents (settle p st w) = myEvents w" "timers (settle p st w) = timers w"
  "clock (settle p st w) = clock w" "peripheral (settle p st w) = peripheral w"
  "length (promises (settle p st w)) = length (promises w)"
  by (simp_all add: settle_def)

lemma runCallback_fields [simp]:
  "myEvents (runCallback cb w) = myEvents w" "timers (runCallback cb w) = timers w"
  "clock (runCallback cb w) = clock w" "peripheral (runCallback cb w) = peripheral w"
  "length (promises (runCallback cb w)) = length (promises w)"
  by (cases cb; simp)+

lemma runCallback_other: "target cb \<noteq> p \<Longrightarrow> promises (runCallback cb w) ! p = promises w ! p"
  by (cases cb) (simp_all add: settle_def)

lemma runCallback_settled:
  "promises w ! p \<noteq> Pending \<Longrightarrow> promises (runCallback cb w) ! p = promises w ! p"
  by (cases cb) (auto simp: settle_def nth_list_update)

lemma runCallback_noop: "promises w ! target cb \<noteq> Pending \<Longrightarrow> runCallback cb w = w"
  by (cases cb) (auto simp: settle_def)

lemma runCallback_pending:
  "target cb < length (promises w) \<Longrightarrow> promises w ! target cb = Pending \<Longrightarrow>
   promises (runCallback cb w) ! target cb = outcome cb"
  by (cases cb) (auto simp: settle_def)

lemma outcome_not_Pending [simp]: "outcome cb \<noteq> Pending"
  by (cases cb) simp_all

lemma fold_fields [simp]:
  "myEvents (fold runCallback cbs w) = myEvents w" "timers (fold runCallback cbs w) = timers w"
  "clock (fold runCallback cbs w) = clock w" "peripheral (fold runCallback cbs w) = peripheral w"
  "length (promises (fold runCallback cbs w)) = length (promises w)"
  by (induction cbs arbitrary: w; simp)+

lemma fold_other:
  "\<forall>cb\<in>set cbs. target cb \<noteq> p \<Longrightarrow> promises (fold runCallback cbs w) ! p = promises w ! p"
  by (induction cbs arbitrary: w) (simp_all add: runCallback_other)

lemma fold_settled:
  "promises w ! p \<noteq> Pending \<Longrightarrow> promises (fold runCallback cbs w) ! p = promises w ! p"
  by (induction cbs arbitrary: w) (simp_all add: runCallback_settled)

lemma fold_first:
  assumes len: "p < length (promises w)" and pen: "promises w ! p = Pending"
    and uniq: "\<And>c. c \<in> set cbs \<Longrightarrow> target c = p \<Longrightarrow> c = cb"
    and mem: "cb \<in> set cbs" and tgt: "target cb = p"
  shows "promises (fold runCallback cbs w) ! p = outcome cb"
  using len pen uniq mem
proof (induction cbs arbitrary: w)
  case Nil
  then show ?case by simp
next
  case (Cons c cbs)
  show ?case
  proof (cases "target c = p")
    case True
    have c: "c = cb" by (rule Cons.prems(3) [OF _ True]) simp
    have "promises (runCallback cb w) ! p = outcome cb"
      using runCallback_pending [of cb w] Cons.prems(1,2) tgt by simp
    then have "promises (fold runCallback cbs (runCallback cb w)) ! p = outcome cb"
      by (simp add: fold_settled)
    then show ?thesis by (simp add: c)
  next
    case False
    have neq: "c \<noteq> cb" using False tgt by auto
    have 1: "cb \<in> set cbs" using Cons.prems(4) neq by simp
    have 2: "promises (runCallback c w) ! p = Pending"
      using False Cons.prems(2) by (simp add: runCallback_other)
    have 3: "p < length (promises (runCallback c w))" using Cons.prems(1) by simp
    have 4: "\<And>d. d \<in> set cbs \<Longrightarrow> target d = p \<Longrightarrow> d = cb"
      by (rule Cons.prems(3)) simp_all
    have "promises (fold runCallback cbs (runCallback c w)) ! p = outcome cb"
      by (rule Cons.IH [OF 3 2 4 1])
    then show ?thesis by simp
  qed
qed

lemma emit_fields [simp]:
  "myEvents (emit n w) = myEvents w" "timers (emit n w) = timers w"
  "clock (emit n w) = clock w" "peripheral (emit n w) = peripheral w"
  "length (promises (emit n w)) = length (promises w)"
  by (simp_all add: emit_def)

lemma advanceTo_fields [simp]:
  "myEvents (advanceTo t w) = myEvents w"
  "peripheral (advanceTo t w) = peripheral w"
  "length (promises (advanceTo t w)) = length (promises w)"
  by (simp_all add: advanceTo_def Let_def)

lemma emit_settled: "promises w ! p \<noteq> Pending \<Longrightarrow> promises (emit n w) ! p = promises w ! p"
  by (simp add: emit_def fold_settled)

lemma advanceTo_settled:
  "promises w ! p \<noteq> Pending \<Longrightarrow> promises (advanceTo t w) ! p = promises w ! p"
  by (simp add: advanceTo_def Let_def fold_settled)



section \<open>The blocks, step by step\<close>

lemma sendPacketNow_fields [simp]:
  "myEvents (sendPacketNow d c pl w) = myEvents w" "timers (sendPacketNow d c pl w) = timers w"
  "clock (sendPacketNow d c pl w) = clock w" "promises (sendPacketNow d c pl w) = promises w"
  "stopAllRequests (sendPacketNow d c pl w) = stopAllRequests w"
  by (simp_all add: sendPacketNow_def)


lemma timerDelay_whole [simp]:
  "timerDelay 100 = 100" "timerDelay 5000 = 5000" "timerDelay 6000 = 6000"
  by (simp_all add: timerDelay_def)

lemma awaitSignal_eq:
  "awaitSignal sig reason timeout w =
     (length (promises w),
      w\<lparr>promises := promises w @ [Pending],
        myEvents := myEvents w @ [(sig, Resolve (length (promises w)))],
        timers := timers w @ [(clock w + timerDelay timeout, Reject (length (promises w)) reason)]\<rparr>)"
  by (simp add: awaitSignal_def setTimeout_def Let_def)

lemma awaitInterval_eq:
  "awaitInterval w =
     (length (promises w),
      w\<lparr>promises := promises w @ [Pending],
        timers := timers w @ [(clock w + 100, Resolve (length (promises w)))]\<rparr>)"
  by (simp add: awaitInterval_def setTimeout_def Let_def BLESendInterval_def)

lemma driveDistance_eq:
  "driveDistance distance w =
     (Inl (ReferenceError ''drivePromise''),
      (sendPacketNow 1 8 (Some (driveDistance_payload distance)) w)
        \<lparr>promises := promises w @ [Pending],
         myEvents := myEvents w @ [(''motorFinished'', Resolve (length (promises w)))],
         timers := timers w @
           [(clock w + timerDelay (distance * 100 + 5000),
             Reject (length (promises w)) ''Motor Timeout'')]\<rparr>)"
  by (simp add: driveDistance_def awaitSignal_eq assignUndeclared_def Let_def)

lemma rotateAngle_eq:
  "rotateAngle angle w =
     (Inl (ReferenceError ''drivePromise''),
      (sendPacketNow 1 12 (Some (rotateAngle_payload angle)) w)
        \<lparr>promises := promises w @ [Pending],
         myEvents := myEvents w @ [(''motorFinished'', Resolve (length (promises w)))],
         timers := timers w @
           [(clock w + timerDelay (angle * 15 + 5000),
             Reject (length (promises w)) ''Motor Timeout'')]\<rparr>)"
  by (simp add: rotateAngle_def awaitSignal_eq assignUndeclared_def Let_def)

lemma playNote_eq:
  "playNote f d w =
     (Inl (ReferenceError ''soundPromise''),
      (sendPacketNow 5 0 (Some (playNote_payload f d)) w)
        \<lparr>promises := promises w @ [Pending],
         myEvents := myEvents w @ [(''soundFinished'', Resolve (length (promises w)))],
         timers := timers w @
           [(clock w + timerDelay (clamp (d * 1000) 0 65535 + 500),
             Reject (length (promises w)) ''Sound Timeout'')]\<rparr>)"
  by (simp add: playNote_def awaitSignal_eq assignUndeclared_def Let_def)

lemma sayText_eq:
  "text \<noteq> [] \<Longrightarrow> sayText text w =
     (Inl (ReferenceError ''soundPromise''),
      (sendPacketNow 5 4 (Some (sayText_payload text)) w)
        \<lparr>promises := promises w @ [Pending],
         myEvents := myEvents w @ [(''soundFinished'', Resolve (length (promises w)))],
         timers := timers w @ [(clock w + 5000, Reject (length (promises w)) ''Sound Timeout'')]\<rparr>)"
  by (simp add: sayText_def awaitSignal_eq assignUndeclared_def Let_def)

lemma setMarker_eq:
  "setMarker_payload MARKER = Some payload \<Longrightarrow> setMarker MARKER w =
     (Inl (ReferenceError ''markerPromise''),
      (sendPacketNow 2 0 (Some payload) w)
        \<lparr>promises := promises w @ [Pending],
         myEvents := myEvents w @ [(''markerFinished'', Resolve (length (promises w)))],
         timers := timers w @ [(clock w + 5000, Reject (length (promises w)) ''Marker Timeout'')]\<rparr>)"
  by (simp add: setMarker_def awaitSignal_eq assignUndeclared_def Let_def)

lemma setLightsRGB_eq:
  "setLightsRGB R G B w =
     (Some (length (promises w)),
      (sendPacketNow 3 2 (Some (setLightsRGB_payload R G B)) w)
        \<lparr>promises := promises w @ [Pending],
         timers := timers w @ [(clock w + 100, Resolve (length (promises w)))]\<rparr>)"
  by (simp add: setLightsRGB_def awaitInterval_eq Let_def)

lemma setSpeeds_eq:
  "setSpeeds L R w =
     (Some (length (promises w)),
      (sendPacketNow 1 4 (Some (setSpeeds_payload L R)) w)
        \<lparr>promises := promises w @ [Pending],
         timers := timers w @ [(clock w + 100, Resolve (length (promises w)))]\<rparr>)"
  by (simp add: setSpeeds_def awaitInterval_eq Let_def)



lemma wfWorld_newWorld: "wfWorld newWorld"
  by (simp add: wfWorld_def newWorld_def)

section \<open>Event traces: what keeps a promise waiting\<close>

lemma onMessage_signal: "signalOf data = Some s \<Longrightarrow> onMessage data w = emit s w"
  by (auto simp: signalOf_def onMessage_def Let_def split: if_splits)

lemma onMessage_no_signal:
  "signalOf data = None \<Longrightarrow>
   promises (onMessage data w) = promises w \<and> myEvents (onMessage data w) = myEvents w \<and>
   timers (onMessage data w) = timers w \<and> clock (onMessage data w) = clock w"
  by (auto simp: signalOf_def onMessage_def Let_def split: if_splits)

lemma timers_advanceTo:
  "timers (advanceTo t w) = filter (\<lambda>(due_at, cb). \<not> due_at \<le> t) (timers w)"
  by (simp add: advanceTo_def Let_def)

lemma settle_index: "length (promises w) \<le> p \<Longrightarrow> promises (settle q st w) ! p = promises w ! p"
  by (simp add: settle_def)

text \<open>Once settled, a promise keeps its state whatever happens.\<close>

lemma invoke_promises:
  "\<exists>new. promises (invoke c w) = promises w @ new"
proof (cases c)
  case (SetMarker m)
  then show ?thesis
    by (cases "setMarker_payload m") (simp_all add: setMarker_eq, simp add: setMarker_def)
next
  case (SayText x)
  then show ?thesis
    by (cases "x = []") (simp_all add: sayText_eq, simp add: sayText_def)
qed (simp_all add: driveDistance_eq rotateAngle_eq setSpeeds_eq setLightsRGB_eq playNote_eq
       stopAll_def sendPacketNow_def)

lemma step_settled:
  assumes "p < length (promises w)" "promises w ! p \<noteq> Pending"
  shows "p < length (promises (step e w)) \<and> promises (step e w) ! p = promises w ! p"
proof (cases e)
  case (Elapse t)
  then show ?thesis using assms by (simp add: advanceTo_settled)
next
  case (Inbound data)
  show ?thesis
  proof (cases "signalOf data")
    case None
    then show ?thesis using assms Inbound onMessage_no_signal [OF None, of w] by simp
  next
    case (Some s)
    then show ?thesis using assms Inbound by (simp add: onMessage_signal emit_settled)
  qed
next
  case (Invoke c)
  obtain new where "promises (invoke c w) = promises w @ new"
    using invoke_promises by blast
  then show ?thesis using assms Invoke by (simp add: nth_append)
qed

lemma run_settled:
  "p < length (promises w) \<Longrightarrow> promises w ! p \<noteq> Pending \<Longrightarrow>
   promises (run es w) ! p = promises w ! p"
  unfolding run_def
proof (induction es arbitrary: w)
  case Nil
  then show ?case by simp
next
  case (Cons e es)
  have "p < length (promises (step e w))" "promises (step e w) ! p = promises w ! p"
    using step_settled [OF Cons.prems] by simp_all
  then show ?case using Cons.IH [of "step e w"] Cons.prems by simp
qed

lemma awaiting_fields:
  "promises w' = promises w \<Longrightarrow> timers w' = timers w \<Longrightarrow> myEvents w' = myEvents w \<Longrightarrow>
   awaiting p sig dl r w' = awaiting p sig dl r w"
  by (simp add: awaiting_def)

lemma only_one:
  assumes "filter (\<lambda>(d, c). target c = p) xs = [(dl, cb)]"
  shows "\<And>d c. (d, c) \<in> set xs \<Longrightarrow> target c = p \<Longrightarrow> d = dl \<and> c = cb"
    and "(dl, cb) \<in> set xs" and "target cb = p"
proof -
  have s: "set (filter (\<lambda>(d, c). target c = p) xs) = {(dl, cb)}"
    by (simp add: assms)
  show "\<And>d c. (d, c) \<in> set xs \<Longrightarrow> target c = p \<Longrightarrow> d = dl \<and> c = cb"
    using s by auto
  show "(dl, cb) \<in> set xs" "target cb = p" using s by auto
qed

lemma filter_kept:
  assumes "filter P xs = [x]" and "Q x"
  shows "filter P (filter Q xs) = [x]"
proof -
  have "filter P (filter Q xs) = filter Q (filter P xs)"
    by (simp add: conj_commute)
  then show ?thesis using assms by simp
qed

lemma awaiting_advanceTo:
  assumes a: "awaiting p sig dl r w" and t: "t < dl"
  shows "awaiting p sig dl r (advanceTo t w)"
proof -
  have f: "filter (\<lambda>(d, c). target c = p) (timers w) = [(dl, Reject p r)]"
    using a by (simp add: awaiting_def)
  have u: "\<And>d c. (d, c) \<in> set (timers w) \<Longrightarrow> target c = p \<Longrightarrow> d = dl"
    using only_one(1) [OF f] by blast
  have "\<forall>c\<in>set (map snd (sort_key fst (filter (\<lambda>(due_at, cb). due_at \<le> t) (timers w)))). target c \<noteq> p"
    using u t by auto
  then have 1: "promises (advanceTo t w) ! p = promises w ! p"
    by (simp add: advanceTo_def Let_def fold_other)
  have 2: "filter (\<lambda>(d, c). target c = p) (timers (advanceTo t w)) = [(dl, Reject p r)]"
    unfolding timers_advanceTo by (rule filter_kept [OF f]) (use t in simp)
  show ?thesis
    using a 1 2 by (simp add: awaiting_def)
qed

lemma awaiting_emit:
  assumes a: "awaiting p sig dl r w" and s: "s \<noteq> sig"
  shows "awaiting p sig dl r (emit s w)"
proof -
  have f: "filter (\<lambda>(n, c). target c = p) (myEvents w) = [(sig, Resolve p)]"
    using a by (simp add: awaiting_def)
  have u: "\<And>n c. (n, c) \<in> set (myEvents w) \<Longrightarrow> target c = p \<Longrightarrow> n = sig"
    using only_one(1) [OF f] by blast
  have "\<forall>c\<in>set (map snd (filter (\<lambda>(n, cb). n = s) (myEvents w))). target c \<noteq> p"
    using u s by auto
  then have "promises (emit s w) ! p = promises w ! p"
    by (simp add: emit_def fold_other)
  then show ?thesis using a by (simp add: awaiting_def)
qed

lemma awaiting_onMessage:
  assumes a: "awaiting p sig dl r w" and q: "signalOf data \<noteq> Some sig"
  shows "awaiting p sig dl r (onMessage data w)"
proof (cases "signalOf data")
  case None
  have "awaiting p sig dl r (onMessage data w) = awaiting p sig dl r w"
    by (rule awaiting_fields) (use onMessage_no_signal [OF None, of w] in simp_all)
  then show ?thesis using a by simp
next
  case (Some s)
  then show ?thesis using a q by (simp add: onMessage_signal awaiting_emit)
qed

lemma awaiting_sendPacketNow:
  "awaiting p sig dl r (sendPacketNow d c pl w) = awaiting p sig dl r w"
  by (rule awaiting_fields) simp_all

lemma awaiting_awaitSignal:
  "awaiting p sig dl r w \<Longrightarrow> awaiting p sig dl r (snd (awaitSignal sig' r' timeout w))"
  by (auto simp: awaiting_def awaitSignal_eq nth_append)

lemma awaiting_awaitInterval:
  "awaiting p sig dl r w \<Longrightarrow> awaiting p sig dl r (snd (awaitInterval w))"
  by (auto simp: awaiting_def awaitInterval_eq nth_append)

lemma awaiting_invoke:
  assumes a: "awaiting p sig dl r w"
  shows "awaiting p sig dl r (invoke c w)"
proof -
  have w1: "\<And>d c pl. awaiting p sig dl r (sendPacketNow d c pl w)"
    using a by (simp add: awaiting_sendPacketNow)
  note s = awaiting_awaitSignal [OF w1] awaiting_awaitInterval [OF w1] awaiting_awaitSignal [OF a]
  show ?thesis
  proof (cases c)
    case (DriveDistance x)
    then show ?thesis by (simp add: driveDistance_def assignUndeclared_def Let_def split_beta s)
  next
    case (RotateAngle x)
    then show ?thesis by (simp add: rotateAngle_def assignUndeclared_def Let_def split_beta s)
  next
    case (SetSpeeds x y)
    then show ?thesis by (simp add: setSpeeds_def Let_def split_beta s)
  next
    case (SetMarker m)
    then show ?thesis
      by (cases "setMarker_payload m")
        (simp_all add: setMarker_def assignUndeclared_def Let_def split_beta s a)
  next
    case (SetLightsRGB x y z)
    then show ?thesis by (simp add: setLightsRGB_def Let_def split_beta s)
  next
    case (PlayNote x y)
    then show ?thesis by (simp add: playNote_def assignUndeclared_def Let_def split_beta s)
  next
    case (SayText x)
    then show ?thesis by (simp add: sayText_def assignUndeclared_def Let_def split_beta s a)
  next
    case StopAll
    then show ?thesis using a w1 by (simp add: stopAll_def)
  qed
qed

lemma awaiting_step:
  "awaiting p sig dl r w \<Longrightarrow> quiet sig dl e \<Longrightarrow> awaiting p sig dl r (step e w)"
  by (cases e) (simp_all add: awaiting_advanceTo awaiting_onMessage awaiting_invoke)

lemma awaiting_run:
  "awaiting p sig dl r w \<Longrightarrow> list_all (quiet sig dl) es \<Longrightarrow> awaiting p sig dl r (run es w)"
  unfolding run_def
  by (induction es arbitrary: w) (simp_all add: awaiting_step)

lemma awaiting_timeout:
  assumes a: "awaiting p sig dl r w" and t: "dl \<le> t"
  shows "promises (advanceTo t w) ! p = Rejected r"
proof -
  let ?cbs = "map snd (sort_key fst (filter (\<lambda>(due_at, cb). due_at \<le> t) (timers w)))"
  have f: "filter (\<lambda>(d, c). target c = p) (timers w) = [(dl, Reject p r)]"
    using a by (simp add: awaiting_def)
  have 1: "c = Reject p r" if "c \<in> set ?cbs" "target c = p" for c
  proof -
    from that(1) obtain d where "(d, c) \<in> set (timers w)" by auto
    from only_one(1) [OF f this that(2)] show ?thesis by simp
  qed
  have 2: "Reject p r \<in> set ?cbs"
    using only_one(2) [OF f] t by (auto simp: image_iff)
  have "promises (fold runCallback ?cbs (w\<lparr>timers := filter (\<lambda>(due_at, cb). \<not> due_at \<le> t) (timers w),
          clock := max (clock w) t\<rparr>)) ! p = outcome (Reject p r)"
    by (rule fold_first [OF _ _ 1 2]) (use a in \<open>simp_all add: awaiting_def\<close>)
  then show ?thesis by (simp add: advanceTo_def Let_def)
qed

lemma awaiting_signal:
  assumes a: "awaiting p sig dl r w"
  shows "promises (emit sig w) ! p = Fulfilled"
proof -
  let ?cbs = "map snd (filter (\<lambda>(n, cb). n = sig) (myEvents w))"
  have f: "filter (\<lambda>(n, c). target c = p) (myEvents w) = [(sig, Resolve p)]"
    using a by (simp add: awaiting_def)
  have 1: "c = Resolve p" if "c \<in> set ?cbs" "target c = p" for c
  proof -
    from that(1) obtain n where "(n, c) \<in> set (myEvents w)" by auto
    from only_one(1) [OF f this that(2)] show ?thesis by simp
  qed
  have 2: "Resolve p \<in> set ?cbs"
    using only_one(2) [OF f] by (auto simp: image_iff)
  have "promises (fold runCallback ?cbs w) ! p = outcome (Resolve p)"
    by (rule fold_first [OF _ _ 1 2]) (use a in \<open>simp_all add: awaiting_def\<close>)
  then show ?thesis by (simp add: emit_def)
qed

lemma filter_none:
  "list_all (\<lambda>c. target c < p) (map snd xs) \<Longrightarrow> filter (\<lambda>(d, c). target c = p) xs = []"
  by (induction xs) auto

lemma awaiting_initial:
  assumes "wfWorld w"
    and "promises w1 = promises w @ [Pending]"
    and "myEvents w1 = myEvents w @ [(sig, Resolve (length (promises w)))]"
    and "timers w1 = timers w @ [(dl, Reject (length (promises w)) r)]"
  shows "awaiting (length (promises w)) sig dl r w1"
  using assms by (simp add: awaiting_def wfWorld_def filter_none)

lemma wfWorld_fields:
  "myEvents w' = myEvents w \<Longrightarrow> timers w' = timers w \<Longrightarrow>
   length (promises w') = length (promises w) \<Longrightarrow> wfWorld w' = wfWorld w"
  by (simp add: wfWorld_def)

lemma wfWorld_advanceTo: "wfWorld w \<Longrightarrow> wfWorld (advanceTo t w)"
  by (auto simp: wfWorld_def timers_advanceTo list_all_iff)

lemma wfWorld_emit: "wfWorld (emit s w) = wfWorld w"
  by (rule wfWorld_fields) simp_all

lemma wfWorld_onMessage: "wfWorld w \<Longrightarrow> wfWorld (onMessage data w)"
proof (cases "signalOf data")
  case None
  have "wfWorld (onMessage data w) = wfWorld w"
    by (rule wfWorld_fields) (use onMessage_no_signal [OF None, of w] in simp_all)
  then show "wfWorld w \<Longrightarrow> ?thesis" by simp
next
  case (Some s)
  then show "wfWorld w \<Longrightarrow> ?thesis" by (simp add: onMessage_signal wfWorld_emit)
qed

lemma wfWorld_sendPacketNow: "wfWorld (sendPacketNow d c pl w) = wfWorld w"
  by (rule wfWorld_fields) simp_all

lemma wfWorld_awaitSignal: "wfWorld w \<Longrightarrow> wfWorld (snd (awaitSignal sig r timeout w))"
  by (auto simp: wfWorld_def awaitSignal_eq list_all_iff)

lemma wfWorld_awaitInterval: "wfWorld w \<Longrightarrow> wfWorld (snd (awaitInterval w))"
  by (auto simp: wfWorld_def awaitInterval_eq list_all_iff)

lemma wfWorld_invoke:
  assumes a: "wfWorld w"
  shows "wfWorld (invoke c w)"
proof -
  have w1: "\<And>d c pl. wfWorld (sendPacketNow d c pl w)"
    using a by (simp add: wfWorld_sendPacketNow)
  note s = wfWorld_awaitSignal [OF w1] wfWorld_awaitInterval [OF w1]
  show ?thesis
  proof (cases c)
    case (DriveDistance x)
    then show ?thesis by (simp add: driveDistance_def assignUndeclared_def Let_def split_beta s)
  next
    case (RotateAngle x)
    then show ?thesis by (simp add: rotateAngle_def assignUndeclared_def Let_def split_beta s)
  next
    case (SetSpeeds x y)
    then show ?thesis by (simp add: setSpeeds_def Let_def split_beta s)
  next
    case (SetMarker m)
    then show ?thesis
      by (cases "setMarker_payload m")
        (simp_all add: setMarker_def assignUndeclared_def Let_def split_beta s a)
  next
    case (SetLightsRGB x y z)
    then show ?thesis by (simp add: setLightsRGB_def Let_def split_beta s)
  next
    case (PlayNote x y)
    then show ?thesis by (simp add: playNote_def assignUndeclared_def Let_def split_beta s)
  next
    case (SayText x)
    then show ?thesis by (simp add: sayText_def assignUndeclared_def Let_def split_beta s a)
  next
    case StopAll
    then show ?thesis using a w1 by (simp add: stopAll_def)
  qed
qed

lemma wfWorld_step: "wfWorld w \<Longrightarrow> wfWorld (step e w)"
  by (cases e) (simp_all add: wfWorld_advanceTo wfWorld_onMessage wfWorld_invoke)

lemma wfWorld_run: "wfWorld w \<Longrightarrow> wfWorld (run es w)"
  unfolding run_def by (induction es arbitrary: w) (simp_all add: wfWorld_step)

lemma wfWorld_reachable: "wfWorld (run es newWorld)"
  by (rule wfWorld_run) (rule wfWorld_newWorld)

lemma run_Nil [simp]: "run [] w = w"
  by (simp add: run_def)

lemma run_Cons [simp]: "run (e # es) w = run es (step e w)"
  by (simp add: run_def)

section \<open>The drive block and its deadline\<close>

lemma driveDistance_throws_always:
  "fst (driveDistance distance w) = Inl (ReferenceError ''drivePromise'')"
  by (simp add: driveDistance_eq)

text \<open>
  The promise that \<^verbatim>\<open>driveDistance\<close> creates for distance 10, in any state in which
  every registered callback belongs to an existing promise: it has a listener for
  \<open>motorFinished\<close> and a timer due 6000 ms after the call. Whatever else happens before
  the deadline (time passing, frames that do not publish \<open>motorFinished\<close>, other blocks
  invoked), the promise stays pending; when the time then reaches the deadline it is
  rejected with \<open>Motor Timeout\<close>, and when instead a drive-finished or rotate-finished
  frame arrives it is fulfilled at once; either way, nothing that happens afterwards
  (the late timer, a late signal) changes it. The call itself does not return this
  promise: see \<open>driveDistance_throws_always\<close>.
\<close>

lemma driveDistance_promise_deadline:
  assumes "wfWorld w"
  shows "let p = length (promises w); w1 = snd (driveDistance 10 w); deadline = clock w + 6000 in
     timers w1 = timers w @ [(deadline, Reject p ''Motor Timeout'')] \<and>
     myEvents w1 = myEvents w @ [(''motorFinished'', Resolve p)] \<and>
     (\<forall>es. list_all (quiet ''motorFinished'' deadline) es \<longrightarrow>
        promises (run es w1) ! p = Pending \<and>
        (\<forall>t es'. deadline \<le> t \<longrightarrow>
           promises (run es' (advanceTo t (run es w1))) ! p = Rejected ''Motor Timeout'') \<and>
        (\<forall>data es'. signalOf data = Some ''motorFinished'' \<longrightarrow>
           promises (run es' (onMessage data (run es w1))) ! p = Fulfilled))"
proof -
  let ?p = "length (promises w)" and ?w1 = "snd (driveDistance 10 w)" and ?dl = "clock w + 6000"
  have pr: "promises ?w1 = promises w @ [Pending]"
    and ev: "myEvents ?w1 = myEvents w @ [(''motorFinished'', Resolve ?p)]"
    and ti: "timers ?w1 = timers w @ [(?dl, Reject ?p ''Motor Timeout'')]"
    by (simp_all add: driveDistance_eq)
  have a0: "awaiting ?p ''motorFinished'' ?dl ''Motor Timeout'' ?w1"
    by (rule awaiting_initial [OF assms pr ev ti])
  have main: "promises (run es ?w1) ! ?p = Pending \<and>
        (\<forall>t es'. ?dl \<le> t \<longrightarrow>
           promises (run es' (advanceTo t (run es ?w1))) ! ?p = Rejected ''Motor Timeout'') \<and>
        (\<forall>data es'. signalOf data = Some ''motorFinished'' \<longrightarrow>
           promises (run es' (onMessage data (run es ?w1))) ! ?p = Fulfilled)"
    if q: "list_all (quiet ''motorFinished'' ?dl) es" for es
  proof -
    have a: "awaiting ?p ''motorFinished'' ?dl ''Motor Timeout'' (run es ?w1)"
      by (rule awaiting_run [OF a0 q])
    then have len: "?p < length (promises (run es ?w1))" by (simp add: awaiting_def)
    have 1: "promises (run es ?w1) ! ?p = Pending" using a by (simp add: awaiting_def)
    have 2: "promises (run es' (advanceTo t (run es ?w1))) ! ?p = Rejected ''Motor Timeout''"
      if "?dl \<le> t" for t es'
    proof -
      have "promises (advanceTo t (run es ?w1)) ! ?p = Rejected ''Motor Timeout''"
        by (rule awaiting_timeout [OF a that])
      then show ?thesis using len by (simp add: run_settled)
    qed
    have 3: "promises (run es' (onMessage data (run es ?w1))) ! ?p = Fulfilled"
      if "signalOf data = Some ''motorFinished''" for data es'
    proof -
      have "promises (emit ''motorFinished'' (run es ?w1)) ! ?p = Fulfilled"
        by (rule awaiting_signal [OF a])
      then show ?thesis using len that by (simp add: run_settled onMessage_signal)
    qed
    show ?thesis using 1 2 3 by blast
  qed
  show ?thesis
    using main ev ti by (simp add: Let_def)
qed

text \<open>
  C3. The claim: a \<^verbatim>\<open>driveDistance\<close> call with distance 10 settles with a Timeout
  error exactly at its deadline of 6000 ms when no \<open>motorFinished\<close> signal is published
  before, and successfully at signal time otherwise. On a connected session just
  started, the call writes its packet, creates the promise with its listener and its
  timer due at 6000 ms, and then throws the \<open>ReferenceError\<close> of the assignment to the
  undeclared \<open>drivePromise\<close> (line 823): the caller gets the error at the time of the
  call, and no promise. The promise that was created is rejected with \<open>Motor Timeout\<close>
  at 6000 ms, or fulfilled by a drive-finished frame, but it is not the outcome of the
  call.
\<close>

theorem driveDistance_throws:
  "fst (driveDistance 10 connectedWorld) = Inl (ReferenceError ''drivePromise'') \<and>
   promises (snd (driveDistance 10 connectedWorld)) = [Pending] \<and>
   myEvents (snd (driveDistance 10 connectedWorld)) = [(''motorFinished'', Resolve 0)] \<and>
   timers (snd (driveDistance 10 connectedWorld)) = [(6000, Reject 0 ''Motor Timeout'')] \<and>
   ble (peripheral (snd (driveDistance 10 connectedWorld))) =
     Some \<lparr>connected = True, written =
       [WriteCall UART_SERVICE TX
          [1, 8, 0, 0, 0, 0, 100, 0, 0, 0, 0, 0, 0, 0, 0, 0, 0, 0, 0, 0] ''base64'']\<rparr> \<and>
   promises (advanceTo 5999 (snd (driveDistance 10 connectedWorld))) ! 0 = Pending \<and>
   promises (advanceTo 6000 (snd (driveDistance 10 connectedWorld))) ! 0 =
     Rejected ''Motor Timeout'' \<and>
   promises (onMessage ([1, 8, 0] @ replicate 17 0) (snd (driveDistance 10 connectedWorld))) ! 0 =
     Fulfilled"
proof -
  let ?w1 = "snd (driveDistance 10 connectedWorld)"
  have n: "promises connectedWorld = []" "myEvents connectedWorld = []"
    "timers connectedWorld = []" "clock connectedWorld = 0"
    by (simp_all add: connectedWorld_def newWorld_def)
  have c: "isConnected (peripheral connectedWorld)"
    "fst (okayToSend (clock connectedWorld) (rateLimiter (peripheral connectedWorld)))"
    by (simp_all add: connectedWorld_def newWorld_def connectedRoot_def newRoot_def isConnected_def
          BLE_isConnected_def okayToSend_def rollover_def newRateLimiter_def BLESendRateMax_def)
  have b: "ble (peripheral connectedWorld) = Some \<lparr>connected = True, written = []\<rparr>"
    by (simp add: connectedWorld_def newWorld_def connectedRoot_def newRoot_def)
  have pl: "driveDistance_payload 10 = [0, 0, 0, 100] @ replicate 12 0"
    by (simp add: driveDistance_payload_def int32toArray_def js_shr_def js_and_def toInt32_def
          fromInt32_def)
  have 1: "fst (driveDistance 10 connectedWorld) = Inl (ReferenceError ''drivePromise'')"
    by (simp add: driveDistance_eq)
  have pr: "promises ?w1 = [Pending]"
    and ev: "myEvents ?w1 = [(''motorFinished'', Resolve 0)]"
    and ti: "timers ?w1 = [(6000, Reject 0 ''Motor Timeout'')]"
    by (simp_all add: driveDistance_eq n)
  have wr: "ble (peripheral ?w1) =
     Some \<lparr>connected = True, written =
       [WriteCall UART_SERVICE TX
          [1, 8, 0, 0, 0, 0, 100, 0, 0, 0, 0, 0, 0, 0, 0, 0, 0, 0, 0, 0] ''base64'']\<rparr>"
    using sendPacketNow_written [OF c, of 1 8 "driveDistance_payload 10"] b
    by (auto simp: driveDistance_eq packetOf_def pl numeral_eq_Suc)
  have 2: "promises (advanceTo 5999 ?w1) ! 0 = Pending"
    by (simp add: advanceTo_def pr ti)
  have 3: "promises (advanceTo 6000 ?w1) ! 0 = Rejected ''Motor Timeout''"
    by (simp add: advanceTo_def settle_def pr ti)
  have s: "signalOf ([1, 8, 0] @ replicate 17 0) = Some ''motorFinished''"
    by (simp add: signalOf_def elemAt_def)
  have "promises (emit ''motorFinished'' ?w1) ! 0 = Fulfilled"
    by (simp add: emit_def settle_def pr ev)
  then have 4: "promises (onMessage ([1, 8, 0] @ replicate 17 0) ?w1) ! 0 = Fulfilled"
    unfolding onMessage_signal [OF s] .
  show ?thesis
    using 1 pr ev ti wr 2 3 4 by blast
qed

section \<open>Operations on a session that is not connected\<close>




end
